theory Spec2Isabelle
  imports Main "HOL-Library.Sublist"
begin

section \<open>Text and the regular expressions of \<open>sync_strings.py\<close>\<close>

text \<open>
  A Python \<open>str\<close> is modelled as a HOL \<open>string\<close>; a \<open>char\<close> stands for a code point
  below U+0100. The two patterns of the script only use literals, the classes
  \<open>\s\<close>, \<open>[^>]\<close>, \<open>[^"]\<close> and \<open>.\<close>, each under at most one repetition, and groups that
  are not nested. A pattern is therefore a list of items, read left to right.
\<close>

datatype atom =
    Lit char              \<comment> \<open>a literal character\<close>
  | NoneOf "char list"    \<comment> \<open>a negated class \<open>[^...]\<close>\<close>
  | Space                 \<comment> \<open>\<open>\s\<close>\<close>
  | AnyChar               \<comment> \<open>\<open>.\<close>\<close>

datatype item =
    One atom              \<comment> \<open>\<open>a\<close>\<close>
  | Many atom             \<comment> \<open>\<open>a*\<close>, greedy\<close>
  | Many1 atom            \<comment> \<open>\<open>a+\<close>, greedy\<close>
  | Few atom              \<comment> \<open>\<open>a*?\<close>, lazy\<close>
  | Open                  \<comment> \<open>\<open>(\<close>\<close>
  | Close                 \<comment> \<open>\<open>)\<close>\<close>

definition newline :: char where
  "newline = CHR 0x0A"

definition carriage_return :: char where
  "carriage_return = CHR 0x0D"

text \<open>
  \<open>\s\<close> on a \<open>str\<close> pattern is \<open>str.isspace\<close> of the character: below U+0100 these are
  U+0009..U+000D, U+001C..U+0020, U+0085 and U+00A0.
\<close>

definition is_space :: "char \<Rightarrow> bool" where
  "is_space c = (c \<in> set [CHR 0x09, CHR 0x0A, CHR 0x0B, CHR 0x0C, CHR 0x0D,
     CHR 0x1C, CHR 0x1D, CHR 0x1E, CHR 0x1F, CHR 0x20, CHR 0x85, CHR 0xA0])"

text \<open>The flag is \<open>re.DOTALL\<close>: without it \<open>.\<close> accepts anything but a newline.\<close>

fun accepts :: "bool \<Rightarrow> atom \<Rightarrow> char \<Rightarrow> bool" where
  "accepts dotall (Lit l) c = (c = l)"
| "accepts dotall (NoneOf cs) c = (c \<notin> set cs)"
| "accepts dotall Space c = is_space c"
| "accepts dotall AnyChar c = (if dotall then True else c \<noteq> newline)"

text \<open>
  The result of a match attempt is the matched text cut at every parenthesis, first
  piece first, and the unread rest of the input. With groups that are not nested,
  group \<open>n\<close> is the piece of index \<open>2 * n - 1\<close>.
\<close>

type_synonym pieces = "string list \<times> string"

fun push :: "char \<Rightarrow> pieces \<Rightarrow> pieces" where
  "push c ([], rest) = ([[c]], rest)"
| "push c (seg # segs, rest) = ((c # seg) # segs, rest)"

fun cut :: "pieces \<Rightarrow> pieces" where
  "cut (segs, rest) = ([] # segs, rest)"

text \<open>
  The backtracking matcher, anchored at the start of the input. A greedy repetition
  first tries to take one more character and falls back to the rest of the pattern;
  a lazy one first tries the rest of the pattern and takes one more character when
  that fails. The first success in this order is the match, as in \<open>re\<close>.
\<close>

fun bt :: "bool \<Rightarrow> item list \<Rightarrow> string \<Rightarrow> pieces option" where
  "bt fl [] s = Some ([[]], s)"
| "bt fl (Open # r) s = map_option cut (bt fl r s)"
| "bt fl (Close # r) s = map_option cut (bt fl r s)"
| "bt fl (One a # r) [] = None"
| "bt fl (One a # r) (c # s) =
     (if accepts fl a c then map_option (push c) (bt fl r s) else None)"
| "bt fl (Many a # r) [] = bt fl r []"
| "bt fl (Many a # r) (c # s) =
     (if accepts fl a c
      then (case bt fl (Many a # r) s of
              Some m \<Rightarrow> Some (push c m)
            | None \<Rightarrow> bt fl r (c # s))
      else bt fl r (c # s))"
| "bt fl (Many1 a # r) [] = None"
| "bt fl (Many1 a # r) (c # s) =
     (if accepts fl a c then map_option (push c) (bt fl (Many a # r) s) else None)"
| "bt fl (Few a # r) [] = bt fl r []"
| "bt fl (Few a # r) (c # s) =
     (case bt fl r (c # s) of
        Some m \<Rightarrow> Some m
      | None \<Rightarrow>
          (if accepts fl a c then map_option (push c) (bt fl (Few a # r) s) else None))"

text \<open>
  \<open>pattern.search\<close>: the first position, from the left, at which the pattern matches.
  The result is the text before the match, the pieces of the match and the text after it.
\<close>

type_synonym found = "string \<times> string list \<times> string"

fun skip :: "char \<Rightarrow> found \<Rightarrow> found" where
  "skip c (before, segs, rest) = (c # before, segs, rest)"

fun search :: "bool \<Rightarrow> item list \<Rightarrow> string \<Rightarrow> found option" where
  "search fl p [] =
     (case bt fl p [] of Some (segs, rest) \<Rightarrow> Some ([], segs, rest) | None \<Rightarrow> None)"
| "search fl p (c # s) =
     (case bt fl p (c # s) of
        Some (segs, rest) \<Rightarrow> Some ([], segs, rest)
      | None \<Rightarrow> map_option (skip c) (search fl p s))"

text \<open>
  \<open>pattern.finditer\<close>: the matches from left to right, each search starting where the
  previous match ended. Both patterns of the script contain literals, so a match is
  never empty and the rest always gets shorter (lemma \<open>search_entry_shorter\<close> below); the
  branch for a rest that did not get shorter is never taken for them.
\<close>

function finditer :: "bool \<Rightarrow> item list \<Rightarrow> string \<Rightarrow> string list list" where
  "finditer fl p s =
     (case search fl p s of
        None \<Rightarrow> []
      | Some (before, segs, rest) \<Rightarrow>
          (if length rest < length s then segs # finditer fl p rest else [segs]))"
  by pat_completeness auto
termination
  by (relation "measure (\<lambda>(fl, p, s). length s)") auto

declare finditer.simps [simp del]

definition match_group :: "nat \<Rightarrow> string list \<Rightarrow> string" where
  "match_group n segs = segs ! (2 * n - 1)"

definition lits :: "string \<Rightarrow> item list" where
  "lits w = map (\<lambda>c. One (Lit c)) w"

text \<open>
  \<^verbatim>\<open><string\s+[^>]*name="([^"]+)"[^>]*>(.*?)</string>\<close>, the pattern of
  \<open>load_translations\<close> (compiled with \<open>re.DOTALL\<close>).
\<close>

definition load_pattern :: "item list" where
  \<open>load_pattern =
     lits ''<string'' @ [Many1 Space, Many (NoneOf ''>'')] @ lits ''name="'' @
     [Open, Many1 (NoneOf ''"''), Close] @
     lits ''"'' @ [Many (NoneOf ''>'')] @ lits ''>'' @
     [Open, Few AnyChar, Close] @
     lits ''</string>''\<close>

text \<open>
  \<^verbatim>\<open>(<string\s+[^>]*name=")([^"]+)("[^>]*>)(.*?)(</string>)\<close>, the pattern of
  \<open>sync_file\<close> (no flag).
\<close>

definition line_pattern :: "item list" where
  \<open>line_pattern =
     [Open] @ lits ''<string'' @ [Many1 Space, Many (NoneOf ''>'')] @ lits ''name="'' @
     [Close, Open, Many1 (NoneOf ''"''), Close, Open] @
     lits ''"'' @ [Many (NoneOf ''>'')] @ lits ''>'' @
     [Close, Open, Few AnyChar, Close, Open] @
     lits ''</string>'' @ [Close]\<close>

text \<open>
  Both patterns describe the same texts, up to the flag: \<^verbatim>\<open><string\<close>, white space,
  characters other than \<^verbatim>\<open>>\<close>, \<^verbatim>\<open>name="\<close>, a key without \<^verbatim>\<open>"\<close>, \<^verbatim>\<open>"\<close>,
  characters other than \<^verbatim>\<open>>\<close>, \<^verbatim>\<open>>\<close>, the content and \<^verbatim>\<open></string>\<close>. The predicate
  reads the regular expression as a set of texts, without the order in which the
  matcher tries the alternatives; lemma \<open>line_pattern_language\<close> below shows that
  \<open>bt\<close> succeeds on exactly these texts.
\<close>

definition starts_with_entry :: "bool \<Rightarrow> string \<Rightarrow> bool" where
  \<open>starts_with_entry dotall x =
     (\<exists>ws A k B v rest.
        x = ''<string'' @ ws @ A @ ''name="'' @ k @ ''"'' @ B @ ''>'' @ v @ ''</string>'' @ rest \<and>
        ws \<noteq> [] \<and> (\<forall>c\<in>set ws. is_space c) \<and> CHR ''>'' \<notin> set A \<and>
        k \<noteq> [] \<and> CHR ''"'' \<notin> set k \<and> CHR ''>'' \<notin> set B \<and>
        (\<forall>c\<in>set v. accepts dotall AnyChar c))\<close>


section \<open>Files\<close>

text \<open>
  The file system is a flat table from the path strings the script builds to nodes. A
  file holds its text as stored (decoding as UTF-8 is taken to succeed); a directory
  holds the names \<open>os.listdir\<close> returns, in the order it returns them. Every call of
  the script into the operating system and every \<open>print\<close> is recorded in a trace.
  Paths and line ends follow POSIX (\<open>os.sep = '/'\<close>, \<open>os.linesep = '\n'\<close>).
\<close>

type_synonym path = string

datatype node = File string | Dir "string list"

datatype msg =
    Source path             \<comment> \<open>\<open>Source: ...\<close>\<close>
  | EnglishNotFound         \<comment> \<open>\<open>Error: English file not found!\<close>\<close>
  | Found "string list"     \<comment> \<open>\<open>Found n target directories: ...\<close>\<close>
  | Syncing path            \<comment> \<open>\<open>Syncing ...\<close>\<close>
  | Complete                \<comment> \<open>\<open>Synchronization complete.\<close>\<close>

datatype event =
    Print msg
  | Exists path
  | IsDir path
  | ListDir path
  | OpenRead path
  | OpenWrite path

datatype error =
    FileNotFoundError path
  | IsADirectoryError path
  | NotADirectoryError path

record world =
  nodes :: "path \<rightharpoonup> node"
  trace :: "event list"

definition emit :: "event \<Rightarrow> world \<Rightarrow> world" where
  "emit e w = w\<lparr>trace := trace w @ [e]\<rparr>"

definition ENGLISH_FILE :: path where
  "ENGLISH_FILE = ''app/src/main/res/values/strings.xml''"

definition VALUES_DIR :: path where
  "VALUES_DIR = ''app/src/main/res''"

text \<open>\<open>os.path.join\<close> of \<open>posixpath\<close>.\<close>

fun path_join :: "path \<Rightarrow> path list \<Rightarrow> path" where
  "path_join a [] = a"
| "path_join a (b # bs) =
     path_join (if prefix ''/'' b then b
                else if a = [] \<or> suffix ''/'' a then a @ b
                else a @ ''/'' @ b) bs"

definition path_exists :: "path \<Rightarrow> world \<Rightarrow> bool \<times> world" where
  "path_exists p w = (nodes w p \<noteq> None, emit (Exists p) w)"

definition path_isdir :: "path \<Rightarrow> world \<Rightarrow> bool \<times> world" where
  "path_isdir p w =
     ((case nodes w p of Some (Dir names) \<Rightarrow> True | _ \<Rightarrow> False), emit (IsDir p) w)"

definition listdir :: "path \<Rightarrow> world \<Rightarrow> (error + string list) \<times> world" where
  "listdir p w =
     ((case nodes w p of
         None \<Rightarrow> Inl (FileNotFoundError p)
       | Some (File text) \<Rightarrow> Inl (NotADirectoryError p)
       | Some (Dir names) \<Rightarrow> Inr names),
      emit (ListDir p) w)"

text \<open>
  Reading in text mode with the default \<open>newline=None\<close> turns \<open>\r\n\<close> and a lone \<open>\r\<close>
  into \<open>\n\<close>; writing on POSIX leaves \<open>\n\<close> as it is.
\<close>

fun universal_newlines :: "string \<Rightarrow> string" where
  "universal_newlines [] = []"
| "universal_newlines [c] = [if c = carriage_return then newline else c]"
| "universal_newlines (c # d # s) =
     (if c = carriage_return
      then (if d = newline then newline # universal_newlines s
            else newline # universal_newlines (d # s))
      else c # universal_newlines (d # s))"

definition read_text :: "path \<Rightarrow> world \<Rightarrow> (error + string) \<times> world" where
  "read_text p w =
     ((case nodes w p of
         None \<Rightarrow> Inl (FileNotFoundError p)
       | Some (Dir names) \<Rightarrow> Inl (IsADirectoryError p)
       | Some (File text) \<Rightarrow> Inr (universal_newlines text)),
      emit (OpenRead p) w)"

definition write_text :: "path \<Rightarrow> string \<Rightarrow> world \<Rightarrow> (error + unit) \<times> world" where
  "write_text p text w =
     (case nodes w p of
        Some (Dir names) \<Rightarrow> (Inl (IsADirectoryError p), emit (OpenWrite p) w)
      | _ \<Rightarrow> (Inr (), emit (OpenWrite p) (w\<lparr>nodes := (nodes w)(p \<mapsto> File text)\<rparr>)))"

text \<open>\<open>f.readlines()\<close>: the lines of the text, each with its \<open>\n\<close>.\<close>

fun readlines :: "string \<Rightarrow> string list" where
  "readlines [] = []"
| "readlines (c # s) =
     (if c = newline then [c] # readlines s
      else (case readlines s of
              [] \<Rightarrow> [[c]]
            | l # ls \<Rightarrow> (c # l) # ls))"

section \<open>\<open>load_translations\<close>\<close>

text \<open>The loop over \<open>pattern.finditer(content)\<close> that fills the dictionary.\<close>

definition translations_of :: "string \<Rightarrow> (string \<rightharpoonup> string)" where
  "translations_of content =
     foldl (\<lambda>translations m. translations(match_group 1 m \<mapsto> match_group 2 m))
       Map.empty (finditer True load_pattern content)"

definition load_translations ::
  "path \<Rightarrow> world \<Rightarrow> (error + (string \<rightharpoonup> string)) \<times> world" where
  "load_translations file_path w =
     (case path_exists file_path w of
        (False, w1) \<Rightarrow> (Inr Map.empty, w1)
      | (True, w1) \<Rightarrow>
          (case read_text file_path w1 of
             (Inl e, w2) \<Rightarrow> (Inl e, w2)
           | (Inr content, w2) \<Rightarrow> (Inr (translations_of content), w2)))"

section \<open>\<open>sync_file\<close>\<close>

text \<open>
  The body of the loop over the lines of the English file. Of the match \<open>m\<close>, group 1 is
  \<open>prefix_start\<close>, group 2 \<open>key\<close>, group 3 \<open>prefix_end\<close>, group 4 \<open>english_value\<close> and
  group 5 \<open>suffix\<close>; \<open>line_start\<close> is \<open>line[:match.start()]\<close> and \<open>line_end\<close> is
  \<open>line[match.end():]\<close>.
\<close>

definition sync_line :: "(string \<rightharpoonup> string) \<Rightarrow> string \<Rightarrow> string" where
  "sync_line current_translations line =
     (case search False line_pattern line of
        None \<Rightarrow> line
      | Some (line_start, m, line_end) \<Rightarrow>
          (case current_translations (match_group 2 m) of
             Some localized_value \<Rightarrow>
               line_start @ match_group 1 m @ match_group 2 m @ match_group 3 m @
               localized_value @ match_group 5 m @ line_end
           | None \<Rightarrow>
               line_start @ match_group 1 m @ match_group 2 m @ match_group 3 m @
               (''TODO: '' @ match_group 4 m) @ match_group 5 m @ line_end))"

definition sync_lines :: "(string \<rightharpoonup> string) \<Rightarrow> string list \<Rightarrow> string list" where
  "sync_lines current_translations lines =
     foldl (\<lambda>new_lines line. new_lines @ [sync_line current_translations line]) [] lines"

definition target_file_of :: "string \<Rightarrow> path" where
  "target_file_of target_dir_name = path_join VALUES_DIR [target_dir_name, ''strings.xml'']"

definition sync_file :: "string \<Rightarrow> world \<Rightarrow> (error + unit) \<times> world" where
  "sync_file target_dir_name w =
     (if \<not> prefix ''values-'' target_dir_name then (Inr (), w)
      else
        (case path_exists (target_file_of target_dir_name) w of
           (False, w1) \<Rightarrow> (Inr (), w1)
         | (True, w1) \<Rightarrow>
             (case load_translations (target_file_of target_dir_name)
                     (emit (Print (Syncing (target_file_of target_dir_name))) w1) of
                (Inl e, w2) \<Rightarrow> (Inl e, w2)
              | (Inr current_translations, w2) \<Rightarrow>
                  (case read_text ENGLISH_FILE w2 of
                     (Inl e, w3) \<Rightarrow> (Inl e, w3)
                   | (Inr content, w3) \<Rightarrow>
                       write_text (target_file_of target_dir_name)
                         (concat (sync_lines current_translations (readlines content))) w3))))"

section \<open>\<open>main\<close>\<close>

text \<open>
  The list comprehension over \<open>os.listdir(VALUES_DIR)\<close>: \<open>os.path.isdir\<close> is only asked
  for the names that start with \<open>values-\<close>.
\<close>

fun select_dirs :: "string list \<Rightarrow> world \<Rightarrow> string list \<times> world" where
  "select_dirs [] w = ([], w)"
| "select_dirs (d # ds) w =
     (if prefix ''values-'' d
      then (case path_isdir (path_join VALUES_DIR [d]) w of
              (isdir, w1) \<Rightarrow>
                (case select_dirs ds w1 of
                   (rest, w2) \<Rightarrow> (if isdir then d # rest else rest, w2)))
      else select_dirs ds w)"

fun sync_all :: "string list \<Rightarrow> world \<Rightarrow> (error + unit) \<times> world" where
  "sync_all [] w = (Inr (), w)"
| "sync_all (d # ds) w =
     (case sync_file d w of
        (Inl e, w1) \<Rightarrow> (Inl e, w1)
      | (Inr u, w1) \<Rightarrow> sync_all ds w1)"

definition main :: "world \<Rightarrow> (error + unit) \<times> world" where
  "main w =
     (case path_exists ENGLISH_FILE (emit (Print (Source ENGLISH_FILE)) w) of
        (False, w1) \<Rightarrow> (Inr (), emit (Print EnglishNotFound) w1)
      | (True, w1) \<Rightarrow>
          (case listdir VALUES_DIR w1 of
             (Inl e, w2) \<Rightarrow> (Inl e, w2)
           | (Inr names, w2) \<Rightarrow>
               (case select_dirs names w2 of
                  (target_dirs, w3) \<Rightarrow>
                    (case sync_all target_dirs (emit (Print (Found target_dirs)) w3) of
                       (Inl e, w4) \<Rightarrow> (Inl e, w4)
                     | (Inr u, w4) \<Rightarrow> (Inr (), emit (Print Complete) w4)))))"

section \<open>Facts about the matcher\<close>

lemma bt_pieces: "bt fl p s = Some (segs, rest) \<Longrightarrow> segs \<noteq> []"
  by (induction fl p s arbitrary: segs rest rule: bt.induct)
     (auto split: if_splits option.splits elim!: push.elims)

lemma push_pieces: "segs \<noteq> [] \<Longrightarrow> push c (segs, rest) = ((c # hd segs) # tl segs, rest)"
  by (cases segs) auto

lemma bt_concat: "bt fl p s = Some (segs, rest) \<Longrightarrow> concat segs @ rest = s"
  by (induction fl p s arbitrary: segs rest rule: bt.induct)
     (auto split: if_splits option.splits elim!: push.elims)

lemma bt_OneD:
  assumes "bt fl (One a # r) s = Some (segs, rest)"
  shows "\<exists>c s' seg t. s = c # s' \<and> accepts fl a c \<and> bt fl r s' = Some (seg # t, rest) \<and> segs = (c # seg) # t"
proof (cases s)
  case Nil
  with assms show ?thesis by simp
next
  case (Cons c s')
  with assms obtain m where m: "bt fl r s' = Some m" "accepts fl a c" "push c m = (segs, rest)"
    by (auto split: if_splits)
  obtain segs' rest' where [simp]: "m = (segs', rest')" by (cases m)
  from m(1) have "segs' \<noteq> []" by (auto dest: bt_pieces)
  then obtain seg t where "segs' = seg # t" by (cases segs') auto
  with m Cons show ?thesis by auto
qed

lemma bt_litsD:
  "bt fl (lits w @ r) s = Some (segs, rest) \<Longrightarrow>
   \<exists>s' seg t. s = w @ s' \<and> bt fl r s' = Some (seg # t, rest) \<and> segs = (w @ seg) # t"
proof (induction w arbitrary: s segs)
  case Nil
  then show ?case using bt_pieces[of fl r s segs rest] by (cases segs) (auto simp: lits_def)
next
  case (Cons c w)
  from Cons.prems have "bt fl (One (Lit c) # lits w @ r) s = Some (segs, rest)"
    by (simp add: lits_def)
  from bt_OneD[OF this] obtain s1 seg1 t1 where
    a: "s = c # s1" "bt fl (lits w @ r) s1 = Some (seg1 # t1, rest)" "segs = (c # seg1) # t1"
    by auto
  from Cons.IH[OF a(2)] a show ?case by auto
qed

lemma bt_ManyD:
  "bt fl (Many a # r) s = Some (segs, rest) \<Longrightarrow>
   \<exists>u s' seg t. s = u @ s' \<and> (\<forall>c\<in>set u. accepts fl a c) \<and>
      bt fl r s' = Some (seg # t, rest) \<and> segs = (u @ seg) # t"
proof (induction s arbitrary: segs)
  case Nil
  then show ?case using bt_pieces[of fl r "[]" segs rest] by (cases segs) auto
next
  case (Cons c s)
  show ?case
  proof (cases "accepts fl a c \<and> bt fl (Many a # r) s \<noteq> None")
    case True
    then obtain m where m: "bt fl (Many a # r) s = Some m" by auto
    obtain segs' rest' where [simp]: "m = (segs', rest')" by (cases m)
    from Cons.prems True m have p: "push c (segs', rest') = (segs, rest)" by simp
    have ne: "segs' \<noteq> []" using m by (auto dest: bt_pieces)
    from p ne have r: "rest' = rest" "segs = (c # hd segs') # tl segs'"
      by (auto simp: push_pieces)
    from Cons.IH[of segs'] m r obtain u s' seg t where
      "s = u @ s'" "\<forall>c\<in>set u. accepts fl a c" "bt fl r s' = Some (seg # t, rest)" "segs' = (u @ seg) # t"
      by auto
    with r True show ?thesis
      by (intro exI[of _ "c # u"] exI[of _ s'] exI[of _ seg] exI[of _ t]) auto
  next
    case False
    with Cons.prems have b: "bt fl r (c # s) = Some (segs, rest)"
      by (auto split: if_splits option.splits)
    then have "segs \<noteq> []" by (rule bt_pieces)
    then obtain seg t where "segs = seg # t" by (cases segs) auto
    with b show ?thesis
      by (intro exI[of _ "[]"] exI[of _ "c # s"] exI[of _ seg] exI[of _ t]) auto
  qed
qed

lemma bt_Many1D:
  assumes "bt fl (Many1 a # r) s = Some (segs, rest)"
  shows "\<exists>u s' seg t. s = u @ s' \<and> u \<noteq> [] \<and> (\<forall>c\<in>set u. accepts fl a c) \<and>
      bt fl r s' = Some (seg # t, rest) \<and> segs = (u @ seg) # t"
proof (cases s)
  case Nil
  with assms show ?thesis by simp
next
  case (Cons c s1)
  with assms obtain m where m: "bt fl (Many a # r) s1 = Some m" "accepts fl a c" "push c m = (segs, rest)"
    by (auto split: if_splits)
  obtain segs' rest' where [simp]: "m = (segs', rest')" by (cases m)
  have ne: "segs' \<noteq> []" using m by (auto dest: bt_pieces)
  from m ne have r: "rest' = rest" "segs = (c # hd segs') # tl segs'"
    by (auto simp: push_pieces)
  from bt_ManyD[of fl a r s1 segs' rest] m r obtain u s' seg t where
      "s1 = u @ s'" "\<forall>c\<in>set u. accepts fl a c" "bt fl r s' = Some (seg # t, rest)" "segs' = (u @ seg) # t"
    by auto
  with r m Cons show ?thesis
    by (intro exI[of _ "c # u"] exI[of _ s'] exI[of _ seg] exI[of _ t]) auto
qed

lemma bt_FewD:
  "bt fl (Few a # r) s = Some (segs, rest) \<Longrightarrow>
   \<exists>u s' seg t. s = u @ s' \<and> (\<forall>c\<in>set u. accepts fl a c) \<and>
      (\<forall>n<length u. bt fl r (drop n s) = None) \<and>
      bt fl r s' = Some (seg # t, rest) \<and> segs = (u @ seg) # t"
proof (induction s arbitrary: segs)
  case Nil
  then show ?case using bt_pieces[of fl r "[]" segs rest] by (cases segs) auto
next
  case (Cons c s)
  show ?case
  proof (cases "bt fl r (c # s)")
    case (Some m)
    with Cons.prems have b: "bt fl r (c # s) = Some (segs, rest)" by simp
    then have "segs \<noteq> []" by (rule bt_pieces)
    then obtain seg t where "segs = seg # t" by (cases segs) auto
    with b show ?thesis
      by (intro exI[of _ "[]"] exI[of _ "c # s"] exI[of _ seg] exI[of _ t]) auto
  next
    case None
    with Cons.prems obtain m where m: "bt fl (Few a # r) s = Some m" "accepts fl a c" "push c m = (segs, rest)"
      by (auto split: if_splits)
    obtain segs' rest' where [simp]: "m = (segs', rest')" by (cases m)
    have ne: "segs' \<noteq> []" using m by (auto dest: bt_pieces)
    from m ne have r: "rest' = rest" "segs = (c # hd segs') # tl segs'"
      by (auto simp: push_pieces)
    from Cons.IH[of segs'] m r obtain u s' seg t where u:
      "s = u @ s'" "\<forall>c\<in>set u. accepts fl a c" "\<forall>n<length u. bt fl r (drop n s) = None"
      "bt fl r s' = Some (seg # t, rest)" "segs' = (u @ seg) # t"
      by auto
    have "\<forall>n<length (c # u). bt fl r (drop n (c # s)) = None"
    proof (intro allI impI)
      fix n assume "n < length (c # u)"
      then show "bt fl r (drop n (c # s)) = None"
        using None u(3) by (cases n) auto
    qed
    with u r m show ?thesis
      by (intro exI[of _ "c # u"] exI[of _ s'] exI[of _ seg] exI[of _ t]) auto
  qed
qed

section \<open>What a match of the entry patterns looks like\<close>

lemma bt_lits_same:
  "bt fl (lits w @ r) (w @ s) = None \<longleftrightarrow> bt fl r s = None"
  by (induction w) (auto simp: lits_def)

lemma bt_closing_prefix:
  assumes "bt fl (Close # Open # lits w @ [Close]) x = None"
  shows "\<not> prefix w x"
proof
  assume "prefix w x"
  then obtain y where "x = w @ y" by (auto simp: prefix_def)
  with assms have "bt fl (lits w @ [Close]) (w @ y) = None" by simp
  then show False by (simp add: bt_lits_same)
qed

lemma bt_line_pattern:
  assumes "bt fl line_pattern s = Some (segs, rest)"
  shows \<open>\<exists>ws A k B v.
     segs = [[], ''<string'' @ ws @ A @ ''name="'', [], k, [], ''"'' @ B @ ''>'', [], v, [],
             ''</string>'', []] \<and>
     ws \<noteq> [] \<and> (\<forall>c\<in>set ws. is_space c) \<and> CHR ''>'' \<notin> set A \<and>
     k \<noteq> [] \<and> CHR ''"'' \<notin> set k \<and> CHR ''>'' \<notin> set B \<and>
     (\<forall>c\<in>set v. accepts fl AnyChar c) \<and>
     (\<forall>n<length v. \<not> prefix ''</string>'' (drop n (v @ ''</string>'' @ rest)))\<close>
proof -
  from assms have \<open>bt fl (Open # lits ''<string'' @ Many1 Space # Many (NoneOf ''>'') #
      lits ''name="'' @ Close # Open # Many1 (NoneOf ''"'') # Close # Open #
      lits ''"'' @ Many (NoneOf ''>'') # lits ''>'' @ Close # Open # Few AnyChar #
      Close # Open # lits ''</string>'' @ [Close]) s = Some (segs, rest)\<close>
    by (simp add: line_pattern_def)
  then obtain t0 where 0: "segs = [] # t0"
    and \<open>bt fl (lits ''<string'' @ Many1 Space # Many (NoneOf ''>'') #
      lits ''name="'' @ Close # Open # Many1 (NoneOf ''"'') # Close # Open #
      lits ''"'' @ Many (NoneOf ''>'') # lits ''>'' @ Close # Open # Few AnyChar #
      Close # Open # lits ''</string>'' @ [Close]) s = Some (t0, rest)\<close>
    by auto
  from bt_litsD[OF this(2)] obtain s1 seg1 t1 where 1: "t0 = (''<string'' @ seg1) # t1"
    and \<open>bt fl (Many1 Space # Many (NoneOf ''>'') #
      lits ''name="'' @ Close # Open # Many1 (NoneOf ''"'') # Close # Open #
      lits ''"'' @ Many (NoneOf ''>'') # lits ''>'' @ Close # Open # Few AnyChar #
      Close # Open # lits ''</string>'' @ [Close]) s1 = Some (seg1 # t1, rest)\<close>
    by auto
  from bt_Many1D[OF this(2)] obtain ws s2 seg2 where 2: "seg1 = ws @ seg2" "ws \<noteq> []"
      "\<forall>c\<in>set ws. is_space c"
    and \<open>bt fl (Many (NoneOf ''>'') #
      lits ''name="'' @ Close # Open # Many1 (NoneOf ''"'') # Close # Open #
      lits ''"'' @ Many (NoneOf ''>'') # lits ''>'' @ Close # Open # Few AnyChar #
      Close # Open # lits ''</string>'' @ [Close]) s2 = Some (seg2 # t1, rest)\<close>
    by auto
  from bt_ManyD[OF this(4)] obtain A s3 seg3 where 3: "seg2 = A @ seg3" "CHR ''>'' \<notin> set A"
    and \<open>bt fl (lits ''name="'' @ Close # Open # Many1 (NoneOf ''"'') # Close # Open #
      lits ''"'' @ Many (NoneOf ''>'') # lits ''>'' @ Close # Open # Few AnyChar #
      Close # Open # lits ''</string>'' @ [Close]) s3 = Some (seg3 # t1, rest)\<close>
    by auto
  from bt_litsD[OF this(3)] obtain s4 seg4 where 4: \<open>seg3 = ''name="'' @ seg4\<close>
    and \<open>bt fl (Close # Open # Many1 (NoneOf ''"'') # Close # Open #
      lits ''"'' @ Many (NoneOf ''>'') # lits ''>'' @ Close # Open # Few AnyChar #
      Close # Open # lits ''</string>'' @ [Close]) s4 = Some (seg4 # t1, rest)\<close>
    by auto
  then obtain t5 where 5: "seg4 = []" "t1 = [] # t5"
    and \<open>bt fl (Many1 (NoneOf ''"'') # Close # Open #
      lits ''"'' @ Many (NoneOf ''>'') # lits ''>'' @ Close # Open # Few AnyChar #
      Close # Open # lits ''</string>'' @ [Close]) s4 = Some (t5, rest)\<close>
    by auto
  from bt_Many1D[OF this(3)] obtain k s6 seg6 t6 where 6: "t5 = (k @ seg6) # t6" "k \<noteq> []"
      \<open>CHR ''"'' \<notin> set k\<close>
    and \<open>bt fl (Close # Open #
      lits ''"'' @ Many (NoneOf ''>'') # lits ''>'' @ Close # Open # Few AnyChar #
      Close # Open # lits ''</string>'' @ [Close]) s6 = Some (seg6 # t6, rest)\<close>
    by auto
  then obtain t7 where 7: "seg6 = []" "t6 = [] # t7"
    and \<open>bt fl (lits ''"'' @ Many (NoneOf ''>'') # lits ''>'' @ Close # Open # Few AnyChar #
      Close # Open # lits ''</string>'' @ [Close]) s6 = Some (t7, rest)\<close>
    by auto
  from bt_litsD[OF this(3)] obtain s8 seg8 t8 where 8: \<open>t7 = (''"'' @ seg8) # t8\<close>
    and \<open>bt fl (Many (NoneOf ''>'') # lits ''>'' @ Close # Open # Few AnyChar #
      Close # Open # lits ''</string>'' @ [Close]) s8 = Some (seg8 # t8, rest)\<close>
    by auto
  from bt_ManyD[OF this(2)] obtain B s9 seg9 where 9: "seg8 = B @ seg9" "CHR ''>'' \<notin> set B"
    and \<open>bt fl (lits ''>'' @ Close # Open # Few AnyChar #
      Close # Open # lits ''</string>'' @ [Close]) s9 = Some (seg9 # t8, rest)\<close>
    by auto
  from bt_litsD[OF this(3)] obtain s10 seg10 where 10: \<open>seg9 = ''>'' @ seg10\<close>
    and \<open>bt fl (Close # Open # Few AnyChar #
      Close # Open # lits ''</string>'' @ [Close]) s10 = Some (seg10 # t8, rest)\<close>
    by auto
  then obtain t11 where 11: "seg10 = []" "t8 = [] # t11"
    and \<open>bt fl (Few AnyChar # Close # Open # lits ''</string>'' @ [Close]) s10 = Some (t11, rest)\<close>
    by auto
  from bt_FewD[OF this(3)] obtain v s12 seg12 t12 where 12: "t11 = (v @ seg12) # t12"
      "\<forall>c\<in>set v. accepts fl AnyChar c" "s10 = v @ s12"
      \<open>\<forall>n<length v. bt fl (Close # Open # lits ''</string>'' @ [Close]) (drop n s10) = None\<close>
    and \<open>bt fl (Close # Open # lits ''</string>'' @ [Close]) s12 = Some (seg12 # t12, rest)\<close>
    by auto
  then obtain t13 where 13: "seg12 = []" "t12 = [] # t13"
    and \<open>bt fl (lits ''</string>'' @ [Close]) s12 = Some (t13, rest)\<close>
    by auto
  from bt_litsD[OF this(3)] obtain s14 seg14 t14 where 14: \<open>t13 = (''</string>'' @ seg14) # t14\<close>
      \<open>s12 = ''</string>'' @ s14\<close>
    and \<open>bt fl [Close] s14 = Some (seg14 # t14, rest)\<close>
    by auto
  then have 15: "seg14 = []" "t14 = [[]]" "s14 = rest"
    by auto
  have \<open>\<forall>n<length v. \<not> prefix ''</string>'' (drop n (v @ ''</string>'' @ rest))\<close>
  proof (intro allI impI)
    fix n assume "n < length v"
    with 12(4) have \<open>bt fl (Close # Open # lits ''</string>'' @ [Close]) (drop n s10) = None\<close>
      by blast
    then have \<open>\<not> prefix ''</string>'' (drop n s10)\<close>
      by (rule bt_closing_prefix)
    then show \<open>\<not> prefix ''</string>'' (drop n (v @ ''</string>'' @ rest))\<close>
      using 12(3) 14(2) 15(3) by simp
  qed
  have fin: \<open>\<forall>n<length v. \<not> prefix ''</string>'' (drop n (v @ ''</string>'' @ rest))\<close>
    by fact
  have \<open>segs = [[], ''<string'' @ ws @ A @ ''name="'', [], k, [], ''"'' @ B @ ''>'', [], v, [],
             ''</string>'', []]\<close>
    unfolding 0 1 2(1) 3(1) 4 5 6(1) 7 8 9(1) 10 11 12(1) 13 14(1) 15 by simp
  with 2(2,3) 3(2) 6(2,3) 9(2) 12(2) fin show ?thesis
    by blast
qed

lemma bt_closing_prefix':
  assumes "bt fl (Close # lits w) x = None"
  shows "\<not> prefix w x"
proof
  assume "prefix w x"
  then obtain y where "x = w @ y" by (auto simp: prefix_def)
  with assms have "bt fl (lits w @ []) (w @ y) = None" by simp
  then show False by (simp only: bt_lits_same) simp
qed

lemma bt_load_pattern:
  assumes "bt fl load_pattern s = Some (segs, rest)"
  shows \<open>\<exists>ws A k B v.
     segs = [''<string'' @ ws @ A @ ''name="'', k, ''"'' @ B @ ''>'', v, ''</string>''] \<and>
     ws \<noteq> [] \<and> (\<forall>c\<in>set ws. is_space c) \<and> CHR ''>'' \<notin> set A \<and>
     k \<noteq> [] \<and> CHR ''"'' \<notin> set k \<and> CHR ''>'' \<notin> set B \<and>
     (\<forall>c\<in>set v. accepts fl AnyChar c) \<and>
     (\<forall>n<length v. \<not> prefix ''</string>'' (drop n (v @ ''</string>'' @ rest)))\<close>
proof -
  from assms have \<open>bt fl (lits ''<string'' @ Many1 Space # Many (NoneOf ''>'') #
      lits ''name="'' @ Open # Many1 (NoneOf ''"'') # Close #
      lits ''"'' @ Many (NoneOf ''>'') # lits ''>'' @ Open # Few AnyChar #
      Close # lits ''</string>'' @ []) s = Some (segs, rest)\<close>
    by (simp add: load_pattern_def)
  from bt_litsD[OF this] obtain s1 seg1 t1 where 1: "segs = (''<string'' @ seg1) # t1"
    and \<open>bt fl (Many1 Space # Many (NoneOf ''>'') #
      lits ''name="'' @ Open # Many1 (NoneOf ''"'') # Close #
      lits ''"'' @ Many (NoneOf ''>'') # lits ''>'' @ Open # Few AnyChar #
      Close # lits ''</string>'' @ []) s1 = Some (seg1 # t1, rest)\<close>
    by auto
  from bt_Many1D[OF this(2)] obtain ws s2 seg2 where 2: "seg1 = ws @ seg2" "ws \<noteq> []"
      "\<forall>c\<in>set ws. is_space c"
    and \<open>bt fl (Many (NoneOf ''>'') #
      lits ''name="'' @ Open # Many1 (NoneOf ''"'') # Close #
      lits ''"'' @ Many (NoneOf ''>'') # lits ''>'' @ Open # Few AnyChar #
      Close # lits ''</string>'' @ []) s2 = Some (seg2 # t1, rest)\<close>
    by auto
  from bt_ManyD[OF this(4)] obtain A s3 seg3 where 3: "seg2 = A @ seg3" "CHR ''>'' \<notin> set A"
    and \<open>bt fl (lits ''name="'' @ Open # Many1 (NoneOf ''"'') # Close #
      lits ''"'' @ Many (NoneOf ''>'') # lits ''>'' @ Open # Few AnyChar #
      Close # lits ''</string>'' @ []) s3 = Some (seg3 # t1, rest)\<close>
    by auto
  from bt_litsD[OF this(3)] obtain s4 seg4 where 4: \<open>seg3 = ''name="'' @ seg4\<close>
    and \<open>bt fl (Open # Many1 (NoneOf ''"'') # Close #
      lits ''"'' @ Many (NoneOf ''>'') # lits ''>'' @ Open # Few AnyChar #
      Close # lits ''</string>'' @ []) s4 = Some (seg4 # t1, rest)\<close>
    by auto
  then have 5: "seg4 = []"
    and \<open>bt fl (Many1 (NoneOf ''"'') # Close #
      lits ''"'' @ Many (NoneOf ''>'') # lits ''>'' @ Open # Few AnyChar #
      Close # lits ''</string>'' @ []) s4 = Some (t1, rest)\<close>
    by auto
  from bt_Many1D[OF this(2)] obtain k s6 seg6 t6 where 6: "t1 = (k @ seg6) # t6" "k \<noteq> []"
      \<open>CHR ''"'' \<notin> set k\<close>
    and \<open>bt fl (Close #
      lits ''"'' @ Many (NoneOf ''>'') # lits ''>'' @ Open # Few AnyChar #
      Close # lits ''</string>'' @ []) s6 = Some (seg6 # t6, rest)\<close>
    by auto
  then have 7: "seg6 = []"
    and \<open>bt fl (lits ''"'' @ Many (NoneOf ''>'') # lits ''>'' @ Open # Few AnyChar #
      Close # lits ''</string>'' @ []) s6 = Some (t6, rest)\<close>
    by auto
  from bt_litsD[OF this(2)] obtain s8 seg8 t8 where 8: \<open>t6 = (''"'' @ seg8) # t8\<close>
    and \<open>bt fl (Many (NoneOf ''>'') # lits ''>'' @ Open # Few AnyChar #
      Close # lits ''</string>'' @ []) s8 = Some (seg8 # t8, rest)\<close>
    by auto
  from bt_ManyD[OF this(2)] obtain B s9 seg9 where 9: "seg8 = B @ seg9" "CHR ''>'' \<notin> set B"
    and \<open>bt fl (lits ''>'' @ Open # Few AnyChar #
      Close # lits ''</string>'' @ []) s9 = Some (seg9 # t8, rest)\<close>
    by auto
  from bt_litsD[OF this(3)] obtain s10 seg10 where 10: \<open>seg9 = ''>'' @ seg10\<close>
    and \<open>bt fl (Open # Few AnyChar #
      Close # lits ''</string>'' @ []) s10 = Some (seg10 # t8, rest)\<close>
    by auto
  then have 11: "seg10 = []"
    and \<open>bt fl (Few AnyChar # Close # lits ''</string>'' @ []) s10 = Some (t8, rest)\<close>
    by auto
  from bt_FewD[OF this(2)] obtain v s12 seg12 t12 where 12: "t8 = (v @ seg12) # t12"
      "\<forall>c\<in>set v. accepts fl AnyChar c" "s10 = v @ s12"
      \<open>\<forall>n<length v. bt fl (Close # lits ''</string>'' @ []) (drop n s10) = None\<close>
    and \<open>bt fl (Close # lits ''</string>'' @ []) s12 = Some (seg12 # t12, rest)\<close>
    by auto
  then have 13: "seg12 = []"
    and \<open>bt fl (lits ''</string>'' @ []) s12 = Some (t12, rest)\<close>
    by auto
  from bt_litsD[OF this(2)] obtain s14 seg14 t14 where 14: \<open>t12 = (''</string>'' @ seg14) # t14\<close>
      \<open>s12 = ''</string>'' @ s14\<close>
    and \<open>bt fl [] s14 = Some (seg14 # t14, rest)\<close>
    by auto
  then have 15: "seg14 = []" "t14 = []" "s14 = rest"
    by auto
  have fin: \<open>\<forall>n<length v. \<not> prefix ''</string>'' (drop n (v @ ''</string>'' @ rest))\<close>
  proof (intro allI impI)
    fix n assume "n < length v"
    with 12(4) have \<open>bt fl (Close # lits ''</string>'') (drop n s10) = None\<close>
      by simp
    then have \<open>\<not> prefix ''</string>'' (drop n s10)\<close>
      by (rule bt_closing_prefix')
    then show \<open>\<not> prefix ''</string>'' (drop n (v @ ''</string>'' @ rest))\<close>
      using 12(3) 14(2) 15(3) by simp
  qed
  have \<open>segs = [''<string'' @ ws @ A @ ''name="'', k, ''"'' @ B @ ''>'', v, ''</string>'']\<close>
    unfolding 1 2(1) 3(1) 4 5 6(1) 7 8 9(1) 10 11 12(1) 13 14(1) 15 by simp
  with 2(2,3) 3(2) 6(2,3) 9(2) 12(2) fin show ?thesis
    by blast
qed

lemma search_sound:
  "search fl p s = Some (before, segs, rest) \<Longrightarrow>
   s = before @ drop (length before) s \<and>
   bt fl p (drop (length before) s) = Some (segs, rest) \<and>
   (\<forall>n<length before. bt fl p (drop n s) = None)"
proof (induction s arbitrary: before)
  case Nil
  then show ?case by (auto split: option.splits)
next
  case (Cons c s)
  show ?case
  proof (cases "bt fl p (c # s)")
    case (Some m)
    with Cons.prems show ?thesis by (auto split: prod.splits)
  next
    case None
    with Cons.prems obtain b' where b: "search fl p s = Some (b', segs, rest)" "before = c # b'"
      by (auto elim!: skip.elims)
    from Cons.IH[OF b(1)] have ih: "s = b' @ drop (length b') s"
      "bt fl p (drop (length b') s) = Some (segs, rest)"
      "\<forall>n<length b'. bt fl p (drop n s) = None" by auto
    have "\<forall>n<length before. bt fl p (drop n (c # s)) = None"
    proof (intro allI impI)
      fix n assume "n < length before"
      then show "bt fl p (drop n (c # s)) = None"
        using None ih(3) b(2) by (cases n) auto
    qed
    with ih b(2) show ?thesis by auto
  qed
qed

lemma search_text:
  assumes "search fl p s = Some (before, segs, rest)"
  shows "s = before @ concat segs @ rest"
proof -
  from search_sound[OF assms] have a: "s = before @ drop (length before) s"
    and b: "bt fl p (drop (length before) s) = Some (segs, rest)" by auto
  from bt_concat[OF b] a show ?thesis by metis
qed

lemma search_bt:
  assumes "search fl p s = Some (before, segs, rest)"
  shows "bt fl p (concat segs @ rest) = Some (segs, rest)"
proof -
  from search_sound[OF assms]
  have b: "bt fl p (drop (length before) s) = Some (segs, rest)" by auto
  from bt_concat[OF b] b show ?thesis by simp
qed

section \<open>Facts about the loops and the file operations\<close>

lemma search_entry_shorter:
  assumes "search fl load_pattern s = Some (before, segs, rest)"
  shows "length rest < length s"
proof -
  from search_bt[OF assms] have "bt fl load_pattern (concat segs @ rest) = Some (segs, rest)" .
  from bt_load_pattern[OF this] have "concat segs \<noteq> []" by auto
  then have "0 < length (concat segs)" by simp
  moreover from search_text[OF assms]
  have "length s = length before + length (concat segs) + length rest" by (metis length_append add.assoc)
  ultimately show ?thesis by linarith
qed

lemma finditer_load:
  "finditer fl load_pattern s =
     (case search fl load_pattern s of
        None \<Rightarrow> []
      | Some (before, segs, rest) \<Rightarrow> segs # finditer fl load_pattern rest)"
  by (auto simp: finditer.simps[of fl load_pattern s] split: option.splits
      dest: search_entry_shorter)

lemma finditer_occurs:
  "m \<in> set (finditer fl p s) \<Longrightarrow>
   \<exists>before rest. s = before @ concat m @ rest \<and> bt fl p (concat m @ rest) = Some (m, rest)"
proof (induction fl p s rule: finditer.induct)
  case (1 fl p s)
  show ?case
  proof (cases "search fl p s")
    case None
    with "1.prems" show ?thesis by (simp add: finditer.simps[of fl p s])
  next
    case (Some f)
    obtain b segs rest where f: "f = (b, segs, rest)" by (cases f)
    note sr = Some[unfolded f]
    show ?thesis
    proof (cases "m = segs")
      case True
      with search_text[OF sr] search_bt[OF sr] show ?thesis by blast
    next
      case False
      with "1.prems" sr have lt: "length rest < length s" and mem: "m \<in> set (finditer fl p rest)"
        by (auto simp: finditer.simps[of fl p s] split: if_splits)
      from "1.IH"[OF sr refl refl lt mem] obtain b' r' where
        "rest = b' @ concat m @ r'" "bt fl p (concat m @ r') = Some (m, r')" by auto
      with search_text[OF sr] show ?thesis
        by (intro exI[of _ "b @ concat segs @ b'"] exI[of _ r']) simp
    qed
  qed
qed

lemma fill_absent:
  "k \<notin> f ` set ms \<Longrightarrow> foldl (\<lambda>tr m. tr(f m \<mapsto> g m)) tr0 ms k = tr0 k"
  by (induction ms arbitrary: tr0) auto

lemma fill_member:
  "foldl (\<lambda>tr m. tr(f m \<mapsto> g m)) tr0 ms k = Some v \<Longrightarrow>
   tr0 k = Some v \<or> (\<exists>m\<in>set ms. f m = k \<and> g m = v)"
proof (induction ms arbitrary: tr0)
  case Nil
  then show ?case by simp
next
  case (Cons a ms)
  from Cons.IH[of "tr0(f a \<mapsto> g a)"] Cons.prems
  have "(tr0(f a \<mapsto> g a)) k = Some v \<or> (\<exists>m\<in>set ms. f m = k \<and> g m = v)" by simp
  then show ?case by (auto split: if_splits)
qed

lemma fill_last:
  "k \<notin> f ` set ms2 \<Longrightarrow> f m = k \<Longrightarrow>
   foldl (\<lambda>tr m. tr(f m \<mapsto> g m)) tr0 (ms1 @ m # ms2) k = Some (g m)"
  by (simp add: fill_absent)

lemma sync_lines_append:
  "foldl (\<lambda>new_lines line. new_lines @ [sync_line cur line]) acc lines =
   acc @ map (sync_line cur) lines"
  by (induction lines arbitrary: acc) auto

lemma sync_lines_map: "sync_lines cur lines = map (sync_line cur) lines"
  by (simp add: sync_lines_def sync_lines_append)

lemma sync_file_run:
  assumes "prefix ''values-'' d"
    and "nodes w ENGLISH_FILE = Some (File c)"
    and "nodes w (target_file_of d) = Some (File t)"
  shows "sync_file d w =
    (Inr (), w\<lparr>nodes := (nodes w)(target_file_of d \<mapsto>
         File (concat (sync_lines (translations_of (universal_newlines t))
                 (readlines (universal_newlines c))))),
       trace := trace w @ [Exists (target_file_of d), Print (Syncing (target_file_of d)),
         Exists (target_file_of d), OpenRead (target_file_of d), OpenRead ENGLISH_FILE,
         OpenWrite (target_file_of d)]\<rparr>)"
  using assms
  by (simp add: sync_file_def load_translations_def path_exists_def read_text_def
      write_text_def emit_def)

lemma sync_file_nodes:
  fixes w1 w2 :: world
  assumes "nodes w1 = nodes w2"
  shows "fst (sync_file d w1) = fst (sync_file d w2) \<and>
         nodes (snd (sync_file d w1)) = nodes (snd (sync_file d w2))"
proof (cases "prefix ''values-'' d")
  case False
  with assms show ?thesis by (simp add: sync_file_def)
next
  case True
  note p = this
  show ?thesis
  proof (cases "nodes w2 (target_file_of d)")
    case None
    with assms p show ?thesis by (simp add: sync_file_def path_exists_def emit_def)
  next
    case (Some n)
    note t = this
    show ?thesis
    proof (cases n)
      case (Dir names)
      with assms p t show ?thesis
        by (simp add: sync_file_def path_exists_def emit_def load_translations_def read_text_def)
    next
      case (File body)
      note f = this
      show ?thesis
      proof (cases "nodes w2 ENGLISH_FILE")
        case None
        with assms p t f show ?thesis
          by (simp add: sync_file_def path_exists_def emit_def load_translations_def
              read_text_def)
      next
        case (Some e)
        with assms p t f show ?thesis
          by (cases e) (simp_all add: sync_file_def path_exists_def emit_def
              load_translations_def read_text_def write_text_def)
      qed
    qed
  qed
qed

lemma sync_all_nodes:
  fixes w1 w2 :: world
  assumes "nodes w1 = nodes w2"
  shows "fst (sync_all ds w1) = fst (sync_all ds w2) \<and>
         nodes (snd (sync_all ds w1)) = nodes (snd (sync_all ds w2))"
  using assms
proof (induction ds arbitrary: w1 w2)
  case Nil
  then show ?case by simp
next
  case (Cons d ds)
  obtain r1 v1 where s1: "sync_file d w1 = (r1, v1)" by (cases "sync_file d w1")
  obtain r2 v2 where s2: "sync_file d w2 = (r2, v2)" by (cases "sync_file d w2")
  from sync_file_nodes[OF Cons.prems, of d] s1 s2 have eq: "r2 = r1" "nodes v1 = nodes v2"
    by auto
  show ?case
  proof (cases r1)
    case (Inl e)
    then show ?thesis by (simp add: s1 s2 eq)
  next
    case (Inr u)
    with Cons.IH[OF eq(2)] show ?thesis by (simp add: s1 s2 eq(1))
  qed
qed

lemma match_group_line [simp]:
  "match_group 1 [a0, a1, a2, a3, a4, a5, a6, a7, a8, a9, a10] = a1"
  "match_group (Suc 0) [a0, a1, a2, a3, a4, a5, a6, a7, a8, a9, a10] = a1"
  "match_group 2 [a0, a1, a2, a3, a4, a5, a6, a7, a8, a9, a10] = a3"
  "match_group 3 [a0, a1, a2, a3, a4, a5, a6, a7, a8, a9, a10] = a5"
  "match_group 4 [a0, a1, a2, a3, a4, a5, a6, a7, a8, a9, a10] = a7"
  "match_group 5 [a0, a1, a2, a3, a4, a5, a6, a7, a8, a9, a10] = a9"
  by (simp_all add: match_group_def)

lemma match_group_load [simp]:
  "match_group 1 [a0, a1, a2, a3, a4] = a1"
  "match_group (Suc 0) [a0, a1, a2, a3, a4] = a1"
  "match_group 2 [a0, a1, a2, a3, a4] = a3"
  by (simp_all add: match_group_def)

lemma search_line:
  assumes "search False line_pattern line = Some (line_start, m, line_end)"
  shows \<open>\<exists>ws A k B v.
     m = [[], ''<string'' @ ws @ A @ ''name="'', [], k, [], ''"'' @ B @ ''>'', [], v, [],
          ''</string>'', []] \<and>
     line = line_start @ ''<string'' @ ws @ A @ ''name="'' @ k @ ''"'' @ B @ ''>'' @ v @
            ''</string>'' @ line_end \<and>
     ws \<noteq> [] \<and> (\<forall>c\<in>set ws. is_space c) \<and> CHR ''>'' \<notin> set A \<and>
     k \<noteq> [] \<and> CHR ''"'' \<notin> set k \<and> CHR ''>'' \<notin> set B \<and> newline \<notin> set v \<and>
     (\<forall>n<length v. \<not> prefix ''</string>'' (drop n (v @ ''</string>'' @ line_end)))\<close>
proof -
  from bt_line_pattern[OF search_bt[OF assms]] obtain ws A k B v where
    m: \<open>m = [[], ''<string'' @ ws @ A @ ''name="'', [], k, [], ''"'' @ B @ ''>'', [], v, [],
          ''</string>'', []]\<close>
    and p: \<open>ws \<noteq> []\<close> \<open>\<forall>c\<in>set ws. is_space c\<close> \<open>CHR ''>'' \<notin> set A\<close>
     \<open>k \<noteq> []\<close> \<open>CHR ''"'' \<notin> set k\<close> \<open>CHR ''>'' \<notin> set B\<close>
     \<open>\<forall>c\<in>set v. accepts False AnyChar c\<close>
     \<open>\<forall>n<length v. \<not> prefix ''</string>'' (drop n (v @ ''</string>'' @ line_end))\<close>
    by blast
  from search_text[OF assms] m
  have \<open>line = line_start @ ''<string'' @ ws @ A @ ''name="'' @ k @ ''"'' @ B @ ''>'' @ v @
            ''</string>'' @ line_end\<close> by simp
  moreover from p(7) have "newline \<notin> set v" by auto
  ultimately show ?thesis using m p by blast
qed

lemma drop_before: "x = ps @ y \<Longrightarrow> drop (length ps) x = y"
  by simp

lemma closing_tag_first:
  assumes \<open>\<forall>n<length v. \<not> prefix ''</string>'' (drop n (v @ ''</string>'' @ rest))\<close>
  shows \<open>\<not> sublist ''</string>'' (v @ ''</string'')\<close>
proof
  assume \<open>sublist ''</string>'' (v @ ''</string'')\<close>
  then obtain ps ss where e: \<open>v @ ''</string'' = ps @ ''</string>'' @ ss\<close>
    by (auto simp: sublist_def)
  then have "length (v @ ''</string'') = length (ps @ ''</string>'' @ ss)" by simp
  then have lt: "length ps < length v" by simp
  have \<open>v @ ''</string>'' @ rest = (v @ ''</string'') @ ''>'' @ rest\<close> by simp
  also have \<open>\<dots> = ps @ (''</string>'' @ ss @ ''>'' @ rest)\<close> unfolding e by simp
  finally have \<open>drop (length ps) (v @ ''</string>'' @ rest) = ''</string>'' @ ss @ ''>'' @ rest\<close>
    by (rule drop_before)
  then have \<open>prefix ''</string>'' (drop (length ps) (v @ ''</string>'' @ rest))\<close>
    by (simp only: prefixI)
  with assms lt show False by blast
qed

lemma sync_line_pending:
  "(case search False line_pattern line of
      None \<Rightarrow> sync_line Map.empty line = line
    | Some (line_start, m, line_end) \<Rightarrow>
        line = line_start @ match_group 1 m @ match_group 2 m @ match_group 3 m @
               match_group 4 m @ ''</string>'' @ line_end \<and>
        sync_line Map.empty line =
               line_start @ match_group 1 m @ match_group 2 m @ match_group 3 m @
               ''TODO: '' @ match_group 4 m @ ''</string>'' @ line_end)"
proof (cases "search False line_pattern line")
  case None
  then show ?thesis by (simp add: sync_line_def)
next
  case (Some f)
  obtain line_start m line_end where f: "f = (line_start, m, line_end)" by (cases f)
  note s = Some[unfolded f]
  from search_line[OF s] obtain ws A k B v where
    m: \<open>m = [[], ''<string'' @ ws @ A @ ''name="'', [], k, [], ''"'' @ B @ ''>'', [], v, [],
          ''</string>'', []]\<close> by blast
  have g: "match_group 5 m = ''</string>''" by (simp add: m)
  have "concat m = match_group 1 m @ match_group 2 m @ match_group 3 m @
               match_group 4 m @ ''</string>''" by (simp add: m)
  with search_text[OF s]
  have l: "line = line_start @ match_group 1 m @ match_group 2 m @ match_group 3 m @
               match_group 4 m @ ''</string>'' @ line_end" by simp
  have "sync_line Map.empty line =
               line_start @ match_group 1 m @ match_group 2 m @ match_group 3 m @
               ''TODO: '' @ match_group 4 m @ ''</string>'' @ line_end"
    unfolding sync_line_def s by (simp add: g)
  with l show ?thesis unfolding s by simp
qed


lemma sync_line_cong:
  assumes "case search False line_pattern line of
             None \<Rightarrow> True
           | Some (line_start, m, line_end) \<Rightarrow> tr1 (match_group 2 m) = tr2 (match_group 2 m)"
  shows "sync_line tr1 line = sync_line tr2 line"
  using assms by (auto simp: sync_line_def split: option.splits)

lemma sync_lines_cong:
  assumes "\<forall>line\<in>set lines. case search False line_pattern line of
             None \<Rightarrow> True
           | Some (line_start, m, line_end) \<Rightarrow> tr1 (match_group 2 m) = tr2 (match_group 2 m)"
  shows "sync_lines tr1 lines = sync_lines tr2 lines"
  unfolding sync_lines_map using assms by (auto intro!: sync_line_cong)



section \<open>Reading the written file back\<close>

lemma bt_lits_eval:
  "bt fl r s = Some (segs, rest) \<Longrightarrow>
   bt fl (lits w @ r) (w @ s) = Some ((w @ hd segs) # tl segs, rest)"
proof (induction w)
  case Nil
  then show ?case using bt_pieces[of fl r s segs rest] by (simp add: lits_def)
next
  case (Cons c w)
  then show ?case by (simp add: lits_def)
qed

lemma bt_lits_mismatch:
  "\<not> prefix w s \<Longrightarrow> bt fl (lits w @ r) s = None"
proof (induction w arbitrary: s)
  case Nil
  then show ?case by simp
next
  case (Cons c w)
  then show ?case by (cases s) (auto simp: lits_def)
qed

lemma greedy_stop:
  "s = [] \<or> \<not> accepts fl a (hd s) \<Longrightarrow> bt fl (Many a # r) s = bt fl r s"
  by (cases s) auto

lemma greedy_all:
  assumes "\<forall>c\<in>set u. accepts fl a c"
    and "s = [] \<or> \<not> accepts fl a (hd s)"
    and "bt fl r s = Some (segs, rest)"
  shows "bt fl (Many a # r) (u @ s) = Some ((u @ hd segs) # tl segs, rest)"
  using assms(1)
proof (induction u)
  case Nil
  from assms(3) have "segs \<noteq> []" by (rule bt_pieces)
  with assms(2,3) show ?case by (simp add: greedy_stop)
next
  case (Cons c u)
  then show ?case by simp
qed

lemma greedy_back:
  assumes "\<forall>c\<in>set u. accepts fl a c"
    and "s = [] \<or> \<not> accepts fl a (hd s)"
    and "\<forall>i. 0 < i \<and> i \<le> length u \<longrightarrow> bt fl r (drop i u @ s) = None"
  shows "bt fl (Many a # r) (u @ s) = bt fl r (u @ s)"
  using assms(1,3)
proof (induction u)
  case Nil
  with assms(2) show ?case by (simp add: greedy_stop)
next
  case (Cons c u)
  have "\<forall>i. 0 < i \<and> i \<le> length u \<longrightarrow> bt fl r (drop i u @ s) = None"
  proof (intro allI impI)
    fix i assume "0 < i \<and> i \<le> length u"
    with Cons.prems(2)[rule_format, of "Suc i"] show "bt fl r (drop i u @ s) = None" by simp
  qed
  with Cons have "bt fl (Many a # r) (u @ s) = bt fl r (u @ s)" by simp
  moreover from Cons.prems(2)[rule_format, of 1] have "bt fl r (u @ s) = None" by simp
  ultimately show ?case using Cons.prems(1) by simp
qed

lemma lazy_first:
  assumes "\<forall>c\<in>set v. accepts fl a c"
    and "\<forall>n<length v. bt fl r (drop n v @ s) = None"
    and "bt fl r s = Some (segs, rest)"
  shows "bt fl (Few a # r) (v @ s) = Some ((v @ hd segs) # tl segs, rest)"
  using assms(1,2)
proof (induction v)
  case Nil
  from assms(3) have "segs \<noteq> []" by (rule bt_pieces)
  with assms(3) show ?case by (cases s) simp_all
next
  case (Cons c v)
  have "\<forall>n<length v. bt fl r (drop n v @ s) = None"
  proof (intro allI impI)
    fix n assume "n < length v"
    with Cons.prems(2)[rule_format, of "Suc n"] show "bt fl r (drop n v @ s) = None" by simp
  qed
  with Cons have "bt fl (Few a # r) (v @ s) = Some ((v @ hd segs) # tl segs, rest)" by simp
  moreover from Cons.prems(2)[rule_format, of 0] have "bt fl r (c # v @ s) = None" by simp
  ultimately show ?case using Cons.prems(1) by simp
qed

lemma no_name_in_key:
  assumes \<open>CHR ''"'' \<notin> set k\<close> and \<open>CHR ''='' \<notin> set k\<close>
  shows \<open>\<not> prefix ''name="'' (k @ ''">'' @ z)\<close>
proof
  assume \<open>prefix ''name="'' (k @ ''">'' @ z)\<close>
  then consider \<open>prefix ''name="'' k\<close>
    | w where \<open>''name="'' = k @ w\<close> \<open>prefix w (''">'' @ z)\<close>
    by (auto simp: prefix_append)
  then show False
  proof cases
    case 1
    then have \<open>set ''name="'' \<subseteq> set k\<close> by (rule set_mono_prefix)
    with assms(1) show False by auto
  next
    case 2
    from 2(1) assms show False using 2(2)
      by (auto simp: Cons_eq_append_conv)
  qed
qed

lemma name_only_once:
  assumes \<open>CHR ''"'' \<notin> set k\<close> and \<open>CHR ''='' \<notin> set k\<close>
    and \<open>0 < i\<close> and \<open>i \<le> length (''name="'' @ k @ ''"'')\<close>
  shows \<open>\<not> prefix ''name="'' (drop i (''name="'' @ k @ ''"'') @ ''>'' @ z)\<close>
proof (cases "i < 6")
  case True
  with assms(3) have "i = 1 \<or> i = 2 \<or> i = 3 \<or> i = 4 \<or> i = 5" by arith
  then show ?thesis by (elim disjE) simp_all
next
  case False
  then obtain j where j: "i = 6 + j" by (metis le_add_diff_inverse not_less)
  have \<open>drop i (''name="'' @ k @ ''"'') = drop j (drop 6 (''name="'' @ k @ ''"''))\<close>
    unfolding j drop_drop by (simp only: add.commute)
  then have d: \<open>drop i (''name="'' @ k @ ''"'') = drop j (k @ ''"'')\<close>
    by simp
  show ?thesis
  proof (cases "j \<le> length k")
    case True
    then have e: \<open>drop j (k @ ''"'') @ ''>'' @ z = drop j k @ ''">'' @ z\<close> by simp
    have \<open>CHR ''"'' \<notin> set (drop j k)\<close> \<open>CHR ''='' \<notin> set (drop j k)\<close>
      using assms(1,2) by (auto dest: in_set_dropD)
    then show ?thesis unfolding d e by (rule no_name_in_key)
  next
    case False
    then have \<open>drop j (k @ ''"'') = []\<close> using assms(4) j by simp
    then show ?thesis unfolding d by simp
  qed
qed

lemma plain_entry_match:
  assumes "k \<noteq> []" and \<open>CHR ''"'' \<notin> set k\<close> and \<open>CHR ''>'' \<notin> set k\<close>
    and \<open>CHR ''='' \<notin> set k\<close>
    and \<open>\<forall>n<length v. \<not> prefix ''</string>'' (drop n v @ ''</string>'' @ R)\<close>
  shows \<open>bt True load_pattern (''<string name="'' @ k @ ''">'' @ v @ ''</string>'' @ R) =
         Some ([''<string name="'', k, ''">'', v, ''</string>''], R)\<close>
proof -
  let ?r5 = \<open>Close # lits ''</string>'' @ []\<close>
  let ?r4 = \<open>Few AnyChar # ?r5\<close>
  let ?r3 = \<open>lits ''"'' @ Many (NoneOf ''>'') # lits ''>'' @ Open # ?r4\<close>
  let ?r2 = \<open>lits ''name="'' @ Open # Many1 (NoneOf ''"'') # Close # ?r3\<close>
  have \<open>bt True (lits ''</string>'' @ []) (''</string>'' @ R) = Some ([''</string>''], R)\<close>
    using bt_lits_eval[of True "[]" R "[[]]" R \<open>''</string>''\<close>] by simp
  then have e5: \<open>bt True ?r5 (''</string>'' @ R) = Some ([[], ''</string>''], R)\<close>
    by simp
  have \<open>\<forall>n<length v. bt True ?r5 (drop n v @ ''</string>'' @ R) = None\<close>
    using assms(5) by (auto simp: bt_lits_mismatch simp del: append_Nil2)
  with e5 have e4: \<open>bt True ?r4 (v @ ''</string>'' @ R) = Some ([v, ''</string>''], R)\<close>
    using lazy_first[of v True AnyChar ?r5 \<open>''</string>'' @ R\<close> \<open>[[], ''</string>'']\<close> R]
    by simp
  then have \<open>bt True (Open # ?r4) (v @ ''</string>'' @ R) = Some ([[], v, ''</string>''], R)\<close>
    by simp
  from bt_lits_eval[OF this, of \<open>''>''\<close>]
  have \<open>bt True (lits ''>'' @ Open # ?r4) (''>'' @ v @ ''</string>'' @ R) =
        Some ([''>'', v, ''</string>''], R)\<close> by simp
  then have \<open>bt True (Many (NoneOf ''>'') # lits ''>'' @ Open # ?r4) (''>'' @ v @ ''</string>'' @ R) =
        Some ([''>'', v, ''</string>''], R)\<close>
    by (simp add: greedy_stop)
  from bt_lits_eval[OF this, of \<open>''"''\<close>]
  have e3: \<open>bt True ?r3 (''">'' @ v @ ''</string>'' @ R) = Some ([''">'', v, ''</string>''], R)\<close>
    by simp
  then have c3: \<open>bt True (Close # ?r3) (''">'' @ v @ ''</string>'' @ R) =
       Some ([[], ''">'', v, ''</string>''], R)\<close>
    by simp
  obtain c k' where k: "k = c # k'" using assms(1) by (cases k) auto
  have ka: \<open>\<forall>c\<in>set k'. accepts True (NoneOf ''"'') c\<close>
    using assms(2) k by auto
  have sc: \<open>''">'' @ v @ ''</string>'' @ R = [] \<or>
            \<not> accepts True (NoneOf ''"'') (hd (''">'' @ v @ ''</string>'' @ R))\<close>
    by simp
  have \<open>bt True (Many (NoneOf ''"'') # Close # ?r3) (k' @ ''">'' @ v @ ''</string>'' @ R) =
        Some ([k', ''">'', v, ''</string>''], R)\<close>
    using greedy_all[OF ka sc c3] by simp
  moreover have \<open>accepts True (NoneOf ''"'') c\<close>
    using assms(2) k by auto
  ultimately have \<open>bt True (Many1 (NoneOf ''"'') # Close # ?r3) (k @ ''">'' @ v @ ''</string>'' @ R) =
        Some ([k, ''">'', v, ''</string>''], R)\<close>
    unfolding k by simp
  then have \<open>bt True (Open # Many1 (NoneOf ''"'') # Close # ?r3) (k @ ''">'' @ v @ ''</string>'' @ R) =
        Some ([[], k, ''">'', v, ''</string>''], R)\<close>
    by simp
  from bt_lits_eval[OF this, of \<open>''name="''\<close>]
  have e2: \<open>bt True ?r2 (''name="'' @ k @ ''">'' @ v @ ''</string>'' @ R) =
        Some ([''name="'', k, ''">'', v, ''</string>''], R)\<close>
    by simp
  have \<open>\<forall>i. 0 < i \<and> i \<le> length (''name="'' @ k @ ''"'') \<longrightarrow>
           bt True ?r2 (drop i (''name="'' @ k @ ''"'') @ ''>'' @ v @ ''</string>'' @ R) = None\<close>
    using name_only_once[OF assms(2,4)] by (intro allI impI bt_lits_mismatch) blast
  moreover have \<open>\<forall>c\<in>set (''name="'' @ k @ ''"''). accepts True (NoneOf ''>'') c\<close>
    using assms(3) by auto
  moreover have \<open>''>'' @ v @ ''</string>'' @ R = [] \<or>
            \<not> accepts True (NoneOf ''>'') (hd (''>'' @ v @ ''</string>'' @ R))\<close>
    by simp
  ultimately have \<open>bt True (Many (NoneOf ''>'') # ?r2) ((''name="'' @ k @ ''"'') @ ''>'' @ v @ ''</string>'' @ R) =
        bt True ?r2 ((''name="'' @ k @ ''"'') @ ''>'' @ v @ ''</string>'' @ R)\<close>
    by (intro greedy_back) blast+
  with e2 have e1: \<open>bt True (Many (NoneOf ''>'') # ?r2) (''name="'' @ k @ ''">'' @ v @ ''</string>'' @ R) =
        Some ([''name="'', k, ''">'', v, ''</string>''], R)\<close>
    by simp
  then have \<open>bt True (Many Space # Many (NoneOf ''>'') # ?r2)
        (''name="'' @ k @ ''">'' @ v @ ''</string>'' @ R) =
        Some ([''name="'', k, ''">'', v, ''</string>''], R)\<close>
    by (simp add: is_space_def)
  then have \<open>bt True (Many1 Space # Many (NoneOf ''>'') # ?r2)
        ('' name="'' @ k @ ''">'' @ v @ ''</string>'' @ R) =
        Some (['' name="'', k, ''">'', v, ''</string>''], R)\<close>
    by (simp add: is_space_def)
  from bt_lits_eval[OF this, of \<open>''<string''\<close>]
  show ?thesis by (simp add: load_pattern_def)
qed

lemma search_none:
  "search fl p s = None \<Longrightarrow> n \<le> length s \<Longrightarrow> bt fl p (drop n s) = None"
proof (induction s arbitrary: n)
  case Nil
  then show ?case by (auto split: option.splits)
next
  case (Cons c s)
  from Cons.prems(1) have a: "bt fl p (c # s) = None" and b: "search fl p s = None"
    by (auto split: option.splits)
  show ?case
  proof (cases n)
    case 0
    with a show ?thesis by simp
  next
    case (Suc n')
    with Cons.IH[OF b, of n'] Cons.prems(2) show ?thesis by simp
  qed
qed

lemma search_here:
  "bt fl p s = Some (segs, rest) \<Longrightarrow> search fl p s = Some ([], segs, rest)"
  by (cases s) auto

lemma search_skip:
  assumes "\<forall>n<length pre. bt fl p (drop n pre @ s) = None"
  shows "search fl p (pre @ s) =
    (case search fl p s of None \<Rightarrow> None | Some (b, segs, rest) \<Rightarrow> Some (pre @ b, segs, rest))"
  using assms
proof (induction pre)
  case Nil
  then show ?case by (auto split: option.splits)
next
  case (Cons c pre)
  have "\<forall>n<length pre. bt fl p (drop n pre @ s) = None"
  proof (intro allI impI)
    fix n assume "n < length pre"
    with Cons.prems[rule_format, of "Suc n"] show "bt fl p (drop n pre @ s) = None" by simp
  qed
  from Cons.IH[OF this] Cons.prems[rule_format, of 0] show ?case
    by (auto split: option.splits)
qed


lemma finditer_skip:
  assumes "\<forall>n<length pre. bt fl load_pattern (drop n pre @ s) = None"
  shows "finditer fl load_pattern (pre @ s) = finditer fl load_pattern s"
  unfolding finditer_load[of fl "pre @ s"] finditer_load[of fl s] search_skip[OF assms]
  by (auto split: option.splits)

lemma opening_needs_space:
  assumes "bt fl load_pattern s \<noteq> None"
  shows "\<exists>c z. s = ''<string'' @ c # z \<and> is_space c"
proof -
  from assms obtain segs rest where \<open>bt fl (lits ''<string'' @ Many1 Space # Many (NoneOf ''>'') #
      lits ''name="'' @ Open # Many1 (NoneOf ''"'') # Close #
      lits ''"'' @ Many (NoneOf ''>'') # lits ''>'' @ Open # Few AnyChar #
      Close # lits ''</string>'' @ []) s = Some (segs, rest)\<close>
    by (auto simp: load_pattern_def)
  from bt_litsD[OF this] obtain s1 seg1 t1 where s: "s = ''<string'' @ s1"
    and \<open>bt fl (Many1 Space # Many (NoneOf ''>'') #
      lits ''name="'' @ Open # Many1 (NoneOf ''"'') # Close #
      lits ''"'' @ Many (NoneOf ''>'') # lits ''>'' @ Open # Few AnyChar #
      Close # lits ''</string>'' @ []) s1 = Some (seg1 # t1, rest)\<close>
    by auto
  from bt_Many1D[OF this(2)] obtain u s2 where "s1 = u @ s2" "u \<noteq> []" "\<forall>c\<in>set u. is_space c"
    by auto
  then obtain c u' where "s1 = c # u' @ s2" "is_space c" by (cases u) auto
  with s show ?thesis by blast
qed

lemma no_opening_no_match:
  assumes "search True (lits ''<string'' @ [One Space]) x = None"
    and "s = [] \<or> hd s = CHR ''<'' \<or> (x \<noteq> [] \<and> last x = newline)"
    and "n < length x"
  shows "bt True load_pattern (drop n x @ s) = None"
proof (rule ccontr)
  assume "bt True load_pattern (drop n x @ s) \<noteq> None"
  from opening_needs_space[OF this] obtain c z where
    e: "drop n x @ s = (''<string'' @ [c]) @ z" and c: "is_space c" by auto
  let ?y = "drop n x"
  have y: "?y \<noteq> []" using assms(3) by simp
  have "\<exists>z'. ?y = ''<string'' @ c # z'"
  proof -
    from append_eq_append_conv2[THEN iffD1, OF e] obtain us where
      d: "?y = (''<string'' @ [c]) @ us \<and> us @ s = z \<or>
          ?y @ us = ''<string'' @ [c] \<and> s = us @ z"
      ..
    then consider "?y = (''<string'' @ [c]) @ us"
      | "us = []" "?y @ us = ''<string'' @ [c]"
      | "?y @ us = ''<string'' @ [c]" "s = us @ z" "us \<noteq> []"
      by blast
    then show ?thesis
    proof cases
      case 1
      then show ?thesis by simp
    next
      case 2
      then show ?thesis by simp
    next
      case 3
      note 2 = this
      from assms(2) show ?thesis
      proof (elim disjE)
        assume "s = []"
        with 2 show ?thesis by simp
      next
        assume "hd s = CHR ''<''"
        with 2(2,3) have "hd us = CHR ''<''" by simp
        with 2(1,3) y c show ?thesis
          by (auto simp: append_eq_Cons_conv Cons_eq_append_conv is_space_def)
      next
        assume "x \<noteq> [] \<and> last x = newline"
        with assms(3) have "last ?y = newline" by simp
        with 2(1,3) y show ?thesis
          by (auto simp: append_eq_Cons_conv Cons_eq_append_conv newline_def simp del: last_drop)
      qed
    qed
  qed
  then obtain z' where "?y = ''<string'' @ c # z'" by blast
  then have "bt True (lits ''<string'' @ [One Space]) ?y \<noteq> None"
    using c bt_lits_eval[of True "[One Space]" "c # z'" "[[c]]" z' "''<string''"] by simp
  moreover from search_none[OF assms(1), of n] assms(3)
  have "bt True (lits ''<string'' @ [One Space]) ?y = None" by simp
  ultimately show False by simp
qed


lemma readlines_terminated:
  "readlines x = ls1 @ l # l' # ls2 \<Longrightarrow> l \<noteq> [] \<and> last l = newline"
proof (induction x arbitrary: ls1 l)
  case Nil
  then show ?case by simp
next
  case (Cons c s)
  show ?case
  proof (cases "c = newline")
    case True
    with Cons.prems have e: "[c] # readlines s = ls1 @ l # l' # ls2" by simp
    show ?thesis
    proof (cases ls1)
      case Nil
      with e True show ?thesis by auto
    next
      case (Cons a ls1')
      with e have "readlines s = ls1' @ l # l' # ls2" by simp
      then show ?thesis by (rule Cons.IH)
    qed
  next
    case False
    show ?thesis
    proof (cases "readlines s")
      case Nil
      with Cons.prems False show ?thesis by (cases ls1) auto
    next
      case (Cons h t)
      with Cons.prems False have e: "(c # h) # t = ls1 @ l # l' # ls2" by simp
      show ?thesis
      proof (cases ls1)
        case Nil
        with e have l: "l = c # h" and "t = l' # ls2" by simp_all
        with Cons have "readlines s = [] @ h # l' # ls2" by simp
        from Cons.IH[OF this] l show ?thesis by simp
      next
        case (Cons a ls1')
        with e have "t = ls1' @ l # l' # ls2" by simp
        with \<open>readlines s = h # t\<close> have "readlines s = (h # ls1') @ l # l' # ls2" by simp
        then show ?thesis by (rule Cons.IH)
      qed
    qed
  qed
qed

lemma closing_tag_not_inside:
  assumes \<open>\<not> sublist ''</string>'' (v @ ''</string'')\<close> and "n < length v"
  shows \<open>\<not> prefix ''</string>'' (drop n v @ ''</string>'' @ R)\<close>
proof
  assume p: \<open>prefix ''</string>'' (drop n v @ ''</string>'' @ R)\<close>
  have \<open>prefix (drop n v @ ''</string'') (drop n v @ ''</string>'' @ R)\<close>
    by simp
  moreover have \<open>length ''</string>'' \<le> length (drop n v @ ''</string'')\<close>
    using assms(2) by simp
  ultimately have \<open>prefix ''</string>'' (drop n v @ ''</string'')\<close>
    using p by (rule prefix_length_prefix[rotated 1])
  then obtain zs where \<open>drop n v @ ''</string'' = ''</string>'' @ zs\<close>
    by (auto simp: prefix_def)
  then have \<open>v @ ''</string'' = take n v @ ''</string>'' @ zs\<close>
    by (metis append_take_drop_id append_assoc)
  then have \<open>sublist ''</string>'' (v @ ''</string'')\<close>
    unfolding sublist_def by blast
  with assms(1) show False by simp
qed




lemma table_entry:
  assumes "translations_of content k = Some v"
  shows \<open>\<exists>before ws A B rest.
     content = before @ ''<string'' @ ws @ A @ ''name="'' @ k @ ''"'' @ B @ ''>'' @ v @
               ''</string>'' @ rest \<and>
     CHR ''>'' \<notin> set B \<and>
     \<not> sublist ''</string>'' (v @ ''</string'')\<close>
proof -
  from fill_member[OF assms[unfolded translations_of_def]]
  obtain m where m: "m \<in> set (finditer True load_pattern content)"
    "match_group 1 m = k" "match_group 2 m = v" by auto
  from finditer_occurs[OF m(1)] obtain before rest where
    c: "content = before @ concat m @ rest"
    and b: "bt True load_pattern (concat m @ rest) = Some (m, rest)" by blast
  from bt_load_pattern[OF b] obtain ws A k' B v' where
    s: \<open>m = [''<string'' @ ws @ A @ ''name="'', k', ''"'' @ B @ ''>'', v', ''</string>'']\<close>
    and q: \<open>CHR ''>'' \<notin> set B\<close>
      \<open>\<forall>n<length v'. \<not> prefix ''</string>'' (drop n (v' @ ''</string>'' @ rest))\<close>
    by blast
  from m(2,3) s have kv: "k' = k" "v' = v" by simp_all
  from c s kv have \<open>content = before @ ''<string'' @ ws @ A @ ''name="'' @ k @ ''"'' @ B @ ''>'' @
      v @ ''</string>'' @ rest\<close> by simp
  moreover from closing_tag_first q(2) kv have \<open>\<not> sublist ''</string>'' (v @ ''</string'')\<close>
    by blast
  ultimately show ?thesis using q(1) by blast
qed









section \<open>The lines of the written file\<close>

lemma readlines_line:
  "l \<in> set (readlines x) \<Longrightarrow> l \<noteq> [] \<and> newline \<notin> set (butlast l)"
proof (induction x arbitrary: l)
  case Nil
  then show ?case by simp
next
  case (Cons c s)
  show ?case
  proof (cases "c = newline")
    case True
    with Cons show ?thesis by auto
  next
    case False
    show ?thesis
    proof (cases "readlines s")
      case Nil
      with Cons.prems False show ?thesis by simp
    next
      case (Cons h t)
      with Cons.prems False have "l = c # h \<or> l \<in> set t" by simp
      then show ?thesis
      proof
        assume l: "l = c # h"
        from Cons have "h \<in> set (readlines s)" by simp
        from Cons.IH[OF this] l False show ?thesis by simp
      next
        assume "l \<in> set t"
        with Cons have "l \<in> set (readlines s)" by simp
        then show ?thesis by (rule Cons.IH)
      qed
    qed
  qed
qed

lemma readlines_one:
  "newline \<notin> set body \<Longrightarrow> readlines (body @ [e]) = [body @ [e]]"
  by (induction body) auto

lemma readlines_first:
  "newline \<notin> set body \<Longrightarrow>
   readlines (body @ newline # rest) = (body @ [newline]) # readlines rest"
  by (induction body) auto

lemma readlines_of_lines:
  assumes "\<forall>l\<in>set ls. l \<noteq> [] \<and> newline \<notin> set (butlast l)"
    and "\<forall>ls1 l l' ls2. ls = ls1 @ l # l' # ls2 \<longrightarrow> last l = newline"
  shows "readlines (concat ls) = ls"
  using assms
proof (induction ls)
  case Nil
  show ?case by simp
next
  case (Cons l ls)
  from Cons.prems(1) have l: "l \<noteq> []" "newline \<notin> set (butlast l)" by simp_all
  show ?case
  proof (cases ls)
    case Nil
    from l have "readlines (butlast l @ [last l]) = [butlast l @ [last l]]"
      by (intro readlines_one)
    with l Nil show ?thesis by simp
  next
    case (Cons l' ls')
    with Cons.prems(2) have "last l = newline" by blast
    with l have e: "l = butlast l @ [newline]" by (metis append_butlast_last_id)
    have "\<forall>ls1 k k' ls2. ls = ls1 @ k # k' # ls2 \<longrightarrow> last k = newline"
    proof (intro allI impI)
      fix ls1 k k' ls2 assume "ls = ls1 @ k # k' # ls2"
      then have "l # ls = (l # ls1) @ k # k' # ls2" by simp
      with Cons.prems(2) show "last k = newline" by blast
    qed
    with Cons.IH Cons.prems(1) have ih: "readlines (concat ls) = ls" by simp
    have "readlines (concat (l # ls)) = readlines (butlast l @ newline # concat ls)"
      using e by (metis append_Cons append_Nil append_assoc concat.simps(2))
    also have "\<dots> = (butlast l @ [newline]) # readlines (concat ls)"
      using l(2) by (rule readlines_first)
    finally show ?thesis using e ih by simp
  qed
qed

lemma written_line_end:
  assumes "l \<noteq> []" and "newline \<notin> set (butlast l)"
    and "\<forall>k v. tab k = Some v \<longrightarrow> newline \<notin> set v"
  shows "sync_line tab l \<noteq> [] \<and> newline \<notin> set (butlast (sync_line tab l)) \<and>
         last (sync_line tab l) = last l"
proof (cases "search False line_pattern l")
  case None
  with assms show ?thesis by (simp add: sync_line_def)
next
  case (Some f)
  obtain pre m post where f: "f = (pre, m, post)" by (cases f)
  note s = Some[unfolded f]
  from search_line[OF s] obtain ws A k B v where
    m: \<open>m = [[], ''<string'' @ ws @ A @ ''name="'', [], k, [], ''"'' @ B @ ''>'', [], v, [],
          ''</string>'', []]\<close>
    and l: \<open>l = (pre @ ''<string'' @ ws @ A @ ''name="'' @ k @ ''"'' @ B @ ''>'' @ v @
            ''</string'') @ (''>'' @ post)\<close>
    by auto
  let ?V = "case tab k of Some v' \<Rightarrow> v' | None \<Rightarrow> ''TODO: '' @ v"
  have w: \<open>sync_line tab l = (pre @ ''<string'' @ ws @ A @ ''name="'' @ k @ ''"'' @ B @ ''>'' @
      ?V @ ''</string'') @ (''>'' @ post)\<close>
    unfolding sync_line_def s by (simp add: m split: option.splits)
  have b: "butlast (x @ (''>'' @ post)) = x @ butlast (''>'' @ post)" for x :: string
    by (simp add: butlast_append)
  from assms(2) have n: "newline \<notin> set pre" "newline \<notin> set ws" "newline \<notin> set A"
    "newline \<notin> set k" "newline \<notin> set B" "newline \<notin> set v"
    "newline \<notin> set (butlast (''>'' @ post))"
    unfolding l b by simp_all
  have "newline \<notin> set ?V"
    using n(6) assms(3) by (auto simp: newline_def split: option.splits)
  with n have "newline \<notin> set (butlast (sync_line tab l))"
    unfolding w b by (simp add: newline_def)
  moreover have "last (sync_line tab l) = last l"
  proof -
    have "last (sync_line tab l) = last (''>'' @ post)" unfolding w by simp
    moreover have "last l = last (''>'' @ post)" by (subst l) simp
    ultimately show ?thesis by simp
  qed
  moreover have "sync_line tab l \<noteq> []" unfolding w by simp
  ultimately show ?thesis by simp
qed

lemma written_lines_are_lines:
  assumes "\<forall>k v. tab k = Some v \<longrightarrow> newline \<notin> set v"
  shows "readlines (concat (map (sync_line tab) (readlines x))) = map (sync_line tab) (readlines x)"
proof (rule readlines_of_lines)
  show "\<forall>l\<in>set (map (sync_line tab) (readlines x)). l \<noteq> [] \<and> newline \<notin> set (butlast l)"
    using written_line_end[OF _ _ assms] readlines_line by auto
next
  show "\<forall>ls1 l l' ls2. map (sync_line tab) (readlines x) = ls1 @ l # l' # ls2 \<longrightarrow>
          last l = newline"
  proof (intro allI impI)
    fix ls1 l l' ls2
    assume "map (sync_line tab) (readlines x) = ls1 @ l # l' # ls2"
    then obtain k1 a a' k2 where r: "readlines x = k1 @ a # a' # k2" and l: "l = sync_line tab a"
      by (auto simp: map_eq_append_conv map_eq_Cons_conv)
    from r have "a \<in> set (readlines x)" by simp
    from readlines_line[OF this] written_line_end[OF _ _ assms, of a] l
    have "last l = last a" by simp
    with readlines_terminated[OF r] show "last l = newline" by simp
  qed
qed

lemma entry_at_start:
  assumes "k \<noteq> []" and \<open>CHR ''"'' \<notin> set k\<close> and \<open>CHR ''>'' \<notin> set k\<close>
    and \<open>CHR ''='' \<notin> set k\<close>
    and \<open>\<not> sublist ''</string>'' (a @ ''</string'')\<close>
  shows \<open>finditer True load_pattern (''<string name="'' @ k @ ''">'' @ a @ ''</string>'' @ b) =
         [''<string name="'', k, ''">'', a, ''</string>''] # finditer True load_pattern b\<close>
proof -
  have \<open>\<forall>n<length a. \<not> prefix ''</string>'' (drop n a @ ''</string>'' @ b)\<close>
    using closing_tag_not_inside[OF assms(5)] by blast
  note s = search_here[OF plain_entry_match[OF assms(1-4) this]]
  show ?thesis
    unfolding finditer_load[of True \<open>''<string name="'' @ k @ ''">'' @ a @ ''</string>'' @ b\<close>] s
    by simp
qed

lemma load_translations_file:
  assumes "nodes w file_path = Some (File content)"
  shows "load_translations file_path w =
    (Inr (translations_of (universal_newlines content)),
     w\<lparr>trace := trace w @ [Exists file_path, OpenRead file_path]\<rparr>)"
  using assms by (simp add: load_translations_def path_exists_def read_text_def emit_def)

section \<open>Texts made of entries\<close>

text \<open>
  What \<open>finditer\<close> returns on a text that is a sequence of entries with gaps between
  them. The greedy \<^verbatim>\<open>[^>]*\<close> before \<^verbatim>\<open>name="\<close> first runs to the end of the opening tag
  and gives back characters until \<^verbatim>\<open>name="\<close> follows, so the key of an opening tag is
  the one after its last \<^verbatim>\<open>name="\<close>; the lemmas are stated for tags with no second
  \<^verbatim>\<open>name="\<close> after the key.
\<close>

lemma greedy_at:
  assumes "\<forall>c\<in>set u. accepts fl a c"
    and "s = [] \<or> \<not> accepts fl a (hd s)"
    and "i \<le> length u"
    and "bt fl r (drop i u @ s) = Some (segs, rest)"
    and "\<forall>j. i < j \<and> j \<le> length u \<longrightarrow> bt fl r (drop j u @ s) = None"
  shows "bt fl (Many a # r) (u @ s) = Some ((take i u @ hd segs) # tl segs, rest)"
  using assms(1,3,4,5)
proof (induction u arbitrary: i)
  case Nil
  from Nil.prems(3) have "segs \<noteq> []" by (auto dest: bt_pieces)
  with Nil.prems assms(2) show ?case by (simp add: greedy_stop)
next
  case (Cons c u)
  show ?case
  proof (cases i)
    case 0
    from Cons.prems(3) have n: "segs \<noteq> []" by (auto dest: bt_pieces)
    have "\<forall>j. 0 < j \<and> j \<le> length (c # u) \<longrightarrow> bt fl r (drop j (c # u) @ s) = None"
      using Cons.prems(4) 0 by blast
    from greedy_back[OF Cons.prems(1) assms(2) this] Cons.prems(3) 0 n
    show ?thesis by simp
  next
    case (Suc i')
    have 1: "\<forall>c\<in>set u. accepts fl a c" using Cons.prems(1) by simp
    have 2: "i' \<le> length u" using Cons.prems(2) Suc by simp
    have 3: "bt fl r (drop i' u @ s) = Some (segs, rest)" using Cons.prems(3) Suc by simp
    have 4: "\<forall>j. i' < j \<and> j \<le> length u \<longrightarrow> bt fl r (drop j u @ s) = None"
    proof (intro allI impI)
      fix j assume "i' < j \<and> j \<le> length u"
      with Cons.prems(4)[rule_format, of "Suc j"] Suc
      show "bt fl r (drop j u @ s) = None" by simp
    qed
    from Cons.IH[OF 1 2 3 4] Cons.prems(1) Suc show ?thesis by simp
  qed
qed

lemma name_once:
  assumes \<open>\<not> sublist ''name="'' y\<close> and "0 < i"
  shows \<open>\<not> prefix ''name="'' (drop i (''name="'' @ y) @ ''>'' @ z)\<close>
proof (cases "i < 6")
  case True
  with assms(2) have "i = 1 \<or> i = 2 \<or> i = 3 \<or> i = 4 \<or> i = 5" by arith
  then show ?thesis by (elim disjE) simp_all
next
  case False
  then obtain j where j: "i = 6 + j" by (metis le_add_diff_inverse not_less)
  have \<open>drop i (''name="'' @ y) = drop j (drop 6 (''name="'' @ y))\<close>
    unfolding j drop_drop by (simp only: add.commute)
  then have d: \<open>drop i (''name="'' @ y) = drop j y\<close>
    by simp
  show ?thesis
  proof
    assume \<open>prefix ''name="'' (drop i (''name="'' @ y) @ ''>'' @ z)\<close>
    then consider \<open>prefix ''name="'' (drop j y)\<close>
      | us where \<open>''name="'' = drop j y @ us\<close> \<open>prefix us (''>'' @ z)\<close> \<open>us \<noteq> []\<close>
      unfolding d prefix_append by (metis append_Nil2 prefix_order.order_refl)
    then show False
    proof cases
      case 1
      then have \<open>sublist ''name="'' (drop j y)\<close> by (rule prefix_imp_sublist)
      then have \<open>sublist ''name="'' y\<close>
        using sublist_drop sublist_order.order_trans by blast
      with assms(1) show False by simp
    next
      case 2
      from 2(2,3) have \<open>hd us = CHR ''>''\<close> by (cases us) auto
      with 2(3) have \<open>CHR ''>'' \<in> set us\<close> by (metis hd_in_set)
      then have \<open>CHR ''>'' \<in> set (drop j y @ us)\<close> by simp
      then show False unfolding 2(1)[symmetric] by simp
    qed
  qed
qed

lemma entry_match:
  assumes "ws \<noteq> []" and "\<forall>c\<in>set ws. is_space c" and \<open>CHR ''>'' \<notin> set A\<close>
    and "k \<noteq> []" and \<open>CHR ''"'' \<notin> set k\<close> and \<open>CHR ''>'' \<notin> set k\<close>
    and \<open>CHR ''>'' \<notin> set B\<close>
    and \<open>\<not> sublist ''name="'' (k @ ''"'' @ B)\<close>
    and \<open>\<forall>n<length v. \<not> prefix ''</string>'' (drop n v @ ''</string>'' @ R)\<close>
  shows \<open>bt True load_pattern
           (''<string'' @ ws @ A @ ''name="'' @ k @ ''"'' @ B @ ''>'' @ v @ ''</string>'' @ R) =
         Some ([''<string'' @ ws @ A @ ''name="'', k, ''"'' @ B @ ''>'', v, ''</string>''], R)\<close>
proof -
  let ?r5 = \<open>Close # lits ''</string>'' @ []\<close>
  let ?r4 = \<open>Few AnyChar # ?r5\<close>
  let ?r3 = \<open>lits ''"'' @ Many (NoneOf ''>'') # lits ''>'' @ Open # ?r4\<close>
  let ?r2 = \<open>lits ''name="'' @ Open # Many1 (NoneOf ''"'') # Close # ?r3\<close>
  let ?s = \<open>''>'' @ v @ ''</string>'' @ R\<close>
  have \<open>bt True (lits ''</string>'' @ []) (''</string>'' @ R) = Some ([''</string>''], R)\<close>
    using bt_lits_eval[of True "[]" R "[[]]" R \<open>''</string>''\<close>] by simp
  then have e5: \<open>bt True ?r5 (''</string>'' @ R) = Some ([[], ''</string>''], R)\<close>
    by simp
  have \<open>\<forall>n<length v. bt True ?r5 (drop n v @ ''</string>'' @ R) = None\<close>
    using assms(9) by (auto simp: bt_lits_mismatch simp del: append_Nil2)
  with e5 have e4: \<open>bt True ?r4 (v @ ''</string>'' @ R) = Some ([v, ''</string>''], R)\<close>
    using lazy_first[of v True AnyChar ?r5 \<open>''</string>'' @ R\<close> \<open>[[], ''</string>'']\<close> R]
    by simp
  then have \<open>bt True (Open # ?r4) (v @ ''</string>'' @ R) = Some ([[], v, ''</string>''], R)\<close>
    by simp
  from bt_lits_eval[OF this, of \<open>''>''\<close>]
  have g: \<open>bt True (lits ''>'' @ Open # ?r4) ?s = Some ([''>'', v, ''</string>''], R)\<close>
    by simp
  have Ba: \<open>\<forall>c\<in>set B. accepts True (NoneOf ''>'') c\<close>
    using assms(7) by auto
  have sg: \<open>?s = [] \<or> \<not> accepts True (NoneOf ''>'') (hd ?s)\<close>
    by simp
  have \<open>bt True (Many (NoneOf ''>'') # lits ''>'' @ Open # ?r4) (B @ ?s) =
        Some ([B @ ''>'', v, ''</string>''], R)\<close>
    using greedy_all[OF Ba sg g] by simp
  from bt_lits_eval[OF this, of \<open>''"''\<close>]
  have e3: \<open>bt True ?r3 (''"'' @ B @ ?s) = Some ([''"'' @ B @ ''>'', v, ''</string>''], R)\<close>
    by simp
  then have c3: \<open>bt True (Close # ?r3) (''"'' @ B @ ?s) =
       Some ([[], ''"'' @ B @ ''>'', v, ''</string>''], R)\<close>
    by simp
  obtain c k' where k: "k = c # k'" using assms(4) by (cases k) auto
  have ka: \<open>\<forall>c\<in>set k'. accepts True (NoneOf ''"'') c\<close>
    using assms(5) k by auto
  have sc: \<open>''"'' @ B @ ?s = [] \<or> \<not> accepts True (NoneOf ''"'') (hd (''"'' @ B @ ?s))\<close>
    by simp
  have \<open>bt True (Many (NoneOf ''"'') # Close # ?r3) (k' @ ''"'' @ B @ ?s) =
        Some ([k', ''"'' @ B @ ''>'', v, ''</string>''], R)\<close>
    using greedy_all[OF ka sc c3] by simp
  moreover have \<open>accepts True (NoneOf ''"'') c\<close>
    using assms(5) k by auto
  ultimately have \<open>bt True (Many1 (NoneOf ''"'') # Close # ?r3) (k @ ''"'' @ B @ ?s) =
        Some ([k, ''"'' @ B @ ''>'', v, ''</string>''], R)\<close>
    unfolding k by simp
  then have \<open>bt True (Open # Many1 (NoneOf ''"'') # Close # ?r3) (k @ ''"'' @ B @ ?s) =
        Some ([[], k, ''"'' @ B @ ''>'', v, ''</string>''], R)\<close>
    by simp
  from bt_lits_eval[OF this, of \<open>''name="''\<close>]
  have e2: \<open>bt True ?r2 (''name="'' @ k @ ''"'' @ B @ ?s) =
        Some ([''name="'', k, ''"'' @ B @ ''>'', v, ''</string>''], R)\<close>
    by simp
  define t where "t = tl ws @ A"
  define w' where "w' = takeWhile is_space t"
  define A' where "A' = dropWhile is_space t"
  let ?M = \<open>''name="'' @ k @ ''"'' @ B\<close>
  let ?u = \<open>A' @ ?M\<close>
  have t: "t = w' @ A'" unfolding w'_def A'_def by simp
  have wsA: "ws @ A = hd ws # w' @ A'"
    using assms(1) unfolding t[symmetric] t_def by (cases ws) auto
  have nsp: \<open>\<not> is_space (CHR ''>'')\<close> by (simp add: is_space_def)
  have \<open>CHR ''>'' \<notin> set t\<close>
    using assms(1,2,3) nsp unfolding t_def by (cases ws) auto
  then have A'g: \<open>CHR ''>'' \<notin> set A'\<close> unfolding t by simp
  have ua: \<open>\<forall>c\<in>set ?u. accepts True (NoneOf ''>'') c\<close>
    using A'g assms(6,7) by auto
  have i: "length A' \<le> length ?u" by simp
  have here: \<open>bt True ?r2 (drop (length A') ?u @ ?s) =
        Some ([''name="'', k, ''"'' @ B @ ''>'', v, ''</string>''], R)\<close>
    using e2 by simp
  have later: \<open>\<forall>j. length A' < j \<and> j \<le> length ?u \<longrightarrow> bt True ?r2 (drop j ?u @ ?s) = None\<close>
  proof (intro allI impI)
    fix j assume j: \<open>length A' < j \<and> j \<le> length ?u\<close>
    then have d: \<open>drop j ?u = drop (j - length A') (''name="'' @ (k @ ''"'' @ B))\<close>
      by simp
    have \<open>\<not> prefix ''name="'' (drop (j - length A') (''name="'' @ (k @ ''"'' @ B)) @ ?s)\<close>
      using j by (intro name_once assms(8)) simp
    then show \<open>bt True ?r2 (drop j ?u @ ?s) = None\<close>
      unfolding d by (rule bt_lits_mismatch)
  qed
  from greedy_at[OF ua sg i here later]
  have e1: \<open>bt True (Many (NoneOf ''>'') # ?r2) (?u @ ?s) =
        Some ([A' @ ''name="'', k, ''"'' @ B @ ''>'', v, ''</string>''], R)\<close>
    by simp
  have wa: \<open>\<forall>c\<in>set w'. accepts True Space c\<close>
    unfolding w'_def by (auto dest: set_takeWhileD)
  have \<open>\<not> is_space (hd (?u @ ?s))\<close>
  proof (cases "A' = []")
    case True
    then show ?thesis by (simp add: is_space_def)
  next
    case False
    then have "\<not> is_space (hd A')" unfolding A'_def by (rule hd_dropWhile)
    with False show ?thesis by simp
  qed
  then have sw: \<open>?u @ ?s = [] \<or> \<not> accepts True Space (hd (?u @ ?s))\<close>
    by simp
  from greedy_all[OF wa sw e1]
  have \<open>bt True (Many Space # Many (NoneOf ''>'') # ?r2) (w' @ ?u @ ?s) =
        Some ([w' @ A' @ ''name="'', k, ''"'' @ B @ ''>'', v, ''</string>''], R)\<close>
    by simp
  moreover have "is_space (hd ws)" using assms(1,2) by simp
  ultimately have \<open>bt True (Many1 Space # Many (NoneOf ''>'') # ?r2) (hd ws # w' @ ?u @ ?s) =
        Some ([hd ws # w' @ A' @ ''name="'', k, ''"'' @ B @ ''>'', v, ''</string>''], R)\<close>
    by simp
  then have \<open>bt True (Many1 Space # Many (NoneOf ''>'') # ?r2)
        ((ws @ A) @ ''name="'' @ k @ ''"'' @ B @ ?s) =
        Some ([(ws @ A) @ ''name="'', k, ''"'' @ B @ ''>'', v, ''</string>''], R)\<close>
    unfolding wsA by simp
  from bt_lits_eval[OF this, of \<open>''<string''\<close>]
  show ?thesis by (simp add: load_pattern_def)
qed

lemma no_opening_search:
  assumes \<open>\<forall>c. is_space c \<longrightarrow> \<not> sublist (''<string'' @ [c]) x\<close>
  shows \<open>search fl (lits ''<string'' @ [One Space]) x = None\<close>
proof (cases \<open>search fl (lits ''<string'' @ [One Space]) x\<close>)
  case None
  then show ?thesis .
next
  case (Some f)
  obtain b segs rest where f: "f = (b, segs, rest)" by (cases f)
  from search_sound[OF Some[unfolded f]]
  have x: "x = b @ drop (length b) x"
    and m: \<open>bt fl (lits ''<string'' @ [One Space]) (drop (length b) x) = Some (segs, rest)\<close>
    by simp_all
  from bt_litsD[OF m] obtain s' seg t where
    d: \<open>drop (length b) x = ''<string'' @ s'\<close> and o: "bt fl [One Space] s' = Some (seg # t, rest)"
    by blast
  from bt_OneD[OF o] obtain c s'' where "s' = c # s''" "is_space c" by auto
  with x d have \<open>x = b @ (''<string'' @ [c]) @ s''\<close> by simp
  then have \<open>sublist (''<string'' @ [c]) x\<close> unfolding sublist_def by blast
  with assms \<open>is_space c\<close> show ?thesis by blast
qed

lemma gap_passed:
  assumes \<open>\<forall>c. is_space c \<longrightarrow> \<not> sublist (''<string'' @ [c]) gap\<close>
    and \<open>s = [] \<or> hd s = CHR ''<''\<close>
    and "n < length gap"
  shows "bt True load_pattern (drop n gap @ s) = None"
  using no_opening_no_match[OF no_opening_search[OF assms(1)] _ assms(3), of s] assms(2)
  by blast

lemma no_opening_no_entry:
  assumes \<open>\<forall>c. is_space c \<longrightarrow> \<not> sublist (''<string'' @ [c]) x\<close>
  shows "finditer True load_pattern x = []"
proof -
  have "search True load_pattern x = None"
  proof (cases "search True load_pattern x")
    case None
    then show ?thesis .
  next
    case (Some f)
    obtain b segs rest where f: "f = (b, segs, rest)" by (cases f)
    from search_sound[OF Some[unfolded f]]
    have x: "x = b @ drop (length b) x"
      and m: "bt True load_pattern (drop (length b) x) = Some (segs, rest)"
      by simp_all
    from m have "bt True load_pattern (drop (length b) x) \<noteq> None" by simp
    from opening_needs_space[OF this] obtain c z where
      \<open>drop (length b) x = ''<string'' @ c # z\<close> "is_space c" by blast
    with x have \<open>x = b @ (''<string'' @ [c]) @ z\<close> by simp
    then have \<open>sublist (''<string'' @ [c]) x\<close> unfolding sublist_def by blast
    with assms \<open>is_space c\<close> show ?thesis by blast
  qed
  then show ?thesis by (simp add: finditer_load)
qed

lemma entry_first:
  assumes "ws \<noteq> []" and "\<forall>c\<in>set ws. is_space c" and \<open>CHR ''>'' \<notin> set A\<close>
    and "k \<noteq> []" and \<open>CHR ''"'' \<notin> set k\<close> and \<open>CHR ''>'' \<notin> set k\<close>
    and \<open>CHR ''>'' \<notin> set B\<close>
    and \<open>\<not> sublist ''name="'' (k @ ''"'' @ B)\<close>
    and \<open>\<not> sublist ''</string>'' (v @ ''</string'')\<close>
  shows \<open>finditer True load_pattern
           (''<string'' @ ws @ A @ ''name="'' @ k @ ''"'' @ B @ ''>'' @ v @ ''</string>'' @ b) =
         [''<string'' @ ws @ A @ ''name="'', k, ''"'' @ B @ ''>'', v, ''</string>''] #
         finditer True load_pattern b\<close>
proof -
  have \<open>\<forall>n<length v. \<not> prefix ''</string>'' (drop n v @ ''</string>'' @ b)\<close>
    using closing_tag_not_inside[OF assms(9)] by blast
  note s = search_here[OF entry_match[OF assms(1-8) this]]
  show ?thesis
    unfolding finditer_load[of True
        \<open>''<string'' @ ws @ A @ ''name="'' @ k @ ''"'' @ B @ ''>'' @ v @ ''</string>'' @ b\<close>] s
    by simp
qed

lemma finditer_entries:
  assumes \<open>\<forall>(gap, ws, A, k, B, v)\<in>set es.
      (\<forall>c. is_space c \<longrightarrow> \<not> sublist (''<string'' @ [c]) gap) \<and>
      ws \<noteq> [] \<and> (\<forall>c\<in>set ws. is_space c) \<and> CHR ''>'' \<notin> set A \<and>
      k \<noteq> [] \<and> CHR ''"'' \<notin> set k \<and> CHR ''>'' \<notin> set k \<and> CHR ''>'' \<notin> set B \<and>
      \<not> sublist ''name="'' (k @ ''"'' @ B) \<and> \<not> sublist ''</string>'' (v @ ''</string'')\<close>
  shows \<open>finditer True load_pattern
      (concat (map (\<lambda>(gap, ws, A, k, B, v).
         gap @ ''<string'' @ ws @ A @ ''name="'' @ k @ ''"'' @ B @ ''>'' @ v @ ''</string>'') es) @
       rest) =
    map (\<lambda>(gap, ws, A, k, B, v).
         [''<string'' @ ws @ A @ ''name="'', k, ''"'' @ B @ ''>'', v, ''</string>'']) es @
    finditer True load_pattern rest\<close>
  using assms
proof (induction es)
  case Nil
  then show ?case by simp
next
  case (Cons e es)
  obtain gap ws A k B v where e: "e = (gap, ws, A, k, B, v)" by (cases e)
  let ?R = \<open>concat (map (\<lambda>(gap, ws, A, k, B, v).
         gap @ ''<string'' @ ws @ A @ ''name="'' @ k @ ''"'' @ B @ ''>'' @ v @ ''</string>'') es) @
       rest\<close>
  from Cons.prems e have g: \<open>\<forall>c. is_space c \<longrightarrow> \<not> sublist (''<string'' @ [c]) gap\<close>
    and h: \<open>ws \<noteq> []\<close> \<open>\<forall>c\<in>set ws. is_space c\<close> \<open>CHR ''>'' \<notin> set A\<close>
    \<open>k \<noteq> []\<close> \<open>CHR ''"'' \<notin> set k\<close> \<open>CHR ''>'' \<notin> set k\<close> \<open>CHR ''>'' \<notin> set B\<close>
    \<open>\<not> sublist ''name="'' (k @ ''"'' @ B)\<close> \<open>\<not> sublist ''</string>'' (v @ ''</string'')\<close>
    by simp_all
  have \<open>\<forall>n<length gap. bt True load_pattern
      (drop n gap @ ''<string'' @ ws @ A @ ''name="'' @ k @ ''"'' @ B @ ''>'' @ v @
       ''</string>'' @ ?R) = None\<close>
    using gap_passed[OF g] by simp
  from finditer_skip[OF this]
  have \<open>finditer True load_pattern
      (gap @ ''<string'' @ ws @ A @ ''name="'' @ k @ ''"'' @ B @ ''>'' @ v @ ''</string>'' @ ?R) =
        [''<string'' @ ws @ A @ ''name="'', k, ''"'' @ B @ ''>'', v, ''</string>''] #
        finditer True load_pattern ?R\<close>
    unfolding entry_first[OF h] .
  moreover have \<open>finditer True load_pattern ?R =
    map (\<lambda>(gap, ws, A, k, B, v).
         [''<string'' @ ws @ A @ ''name="'', k, ''"'' @ B @ ''>'', v, ''</string>'']) es @
    finditer True load_pattern rest\<close>
    using Cons.IH Cons.prems by simp
  ultimately show ?case unfolding e by simp
qed

lemma fill_entries:
  \<open>foldl (\<lambda>translations m. translations(match_group 1 m \<mapsto> match_group 2 m)) tr0
     (map (\<lambda>(gap, ws, A, k, B, v).
         [''<string'' @ ws @ A @ ''name="'', k, ''"'' @ B @ ''>'', v, ''</string>'']) es) =
   tr0 ++ map_of (rev (map (\<lambda>(gap, ws, A, k, B, v). (k, v)) es))\<close>
proof (induction es arbitrary: tr0)
  case Nil
  then show ?case by simp
next
  case (Cons e es)
  obtain gap ws A k B v where e: "e = (gap, ws, A, k, B, v)" by (cases e)
  have 1: \<open>foldl (\<lambda>translations m. translations(match_group 1 m \<mapsto> match_group 2 m)) tr0
     (map (\<lambda>(gap, ws, A, k, B, v).
         [''<string'' @ ws @ A @ ''name="'', k, ''"'' @ B @ ''>'', v, ''</string>'']) (e # es)) =
     foldl (\<lambda>translations m. translations(match_group 1 m \<mapsto> match_group 2 m)) (tr0(k \<mapsto> v))
     (map (\<lambda>(gap, ws, A, k, B, v).
         [''<string'' @ ws @ A @ ''name="'', k, ''"'' @ B @ ''>'', v, ''</string>'']) es)\<close>
    unfolding e list.map foldl_Cons prod.case match_group_load ..
  have 2: \<open>tr0 ++ map_of (rev (map (\<lambda>(gap, ws, A, k, B, v). (k, v)) (e # es))) =
     tr0(k \<mapsto> v) ++ map_of (rev (map (\<lambda>(gap, ws, A, k, B, v). (k, v)) es))\<close>
    unfolding e by (simp add: map_add_upd_left)
  show ?case unfolding 1 2 by (rule Cons.IH)
qed

lemma key_not_named:
  assumes \<open>\<not> sublist (''name="'' @ key @ ''"'') b\<close>
  shows "key \<notin> match_group 1 ` set (finditer fl load_pattern b)"
proof
  assume "key \<in> match_group 1 ` set (finditer fl load_pattern b)"
  then obtain m where m: "m \<in> set (finditer fl load_pattern b)" and k: "match_group 1 m = key"
    by blast
  from finditer_occurs[OF m] obtain before rest where
    b: "b = before @ concat m @ rest" and
    bt: "bt fl load_pattern (concat m @ rest) = Some (m, rest)" by blast
  from bt_load_pattern[OF bt] obtain ws A k' B v where
    s: \<open>m = [''<string'' @ ws @ A @ ''name="'', k', ''"'' @ B @ ''>'', v, ''</string>'']\<close>
    by blast
  from k s have "k' = key" by simp
  with b s have \<open>b = (before @ ''<string'' @ ws @ A) @ (''name="'' @ key @ ''"'') @
      (B @ ''>'' @ v @ ''</string>'' @ rest)\<close> by simp
  then have \<open>sublist (''name="'' @ key @ ''"'') b\<close> unfolding sublist_def by blast
  with assms show False by simp
qed

lemma readlines_bodies:
  assumes "\<forall>body\<in>set bodies. newline \<notin> set body" and "newline \<notin> set tail"
  shows "readlines (concat (map (\<lambda>body. body @ [newline]) bodies) @ tail) =
         map (\<lambda>body. body @ [newline]) bodies @ (if tail = [] then [] else [tail])"
  using assms(1)
proof (induction bodies)
  case Nil
  show ?case
  proof (cases "tail = []")
    case True
    then show ?thesis by simp
  next
    case False
    then have "tail = butlast tail @ [last tail]" by simp
    moreover have "newline \<notin> set (butlast tail)"
      using assms(2) by (meson in_set_butlastD)
    ultimately have "readlines tail = [tail]"
      using readlines_one[of "butlast tail" "last tail"] by simp
    with False show ?thesis by simp
  qed
next
  case (Cons b bodies)
  then have "newline \<notin> set b" by simp
  from readlines_first[OF this] Cons show ?case by simp
qed

section \<open>The texts the entry pattern accepts\<close>

text \<open>
  The matcher finds a match whenever the text starts with an entry, whatever the order
  in which it tries the alternatives: a repetition that can stop at some place succeeds
  there at the latest.
\<close>

lemma bt_Many_more:
  assumes "bt fl r s \<noteq> None"
  shows "bt fl (Many a # r) s \<noteq> None"
  using assms by (cases s) (auto split: option.splits)

lemma bt_Many_ok:
  "\<forall>c\<in>set u. accepts fl a c \<Longrightarrow> bt fl r s \<noteq> None \<Longrightarrow> bt fl (Many a # r) (u @ s) \<noteq> None"
proof (induction u)
  case Nil
  then show ?case using bt_Many_more by simp
next
  case (Cons c u)
  then have "bt fl (Many a # r) (u @ s) \<noteq> None" by simp
  with Cons.prems show ?case by (auto split: option.splits)
qed

lemma bt_Many1_ok:
  assumes "u \<noteq> []" and "\<forall>c\<in>set u. accepts fl a c" and "bt fl r s \<noteq> None"
  shows "bt fl (Many1 a # r) (u @ s) \<noteq> None"
proof -
  from assms(1) obtain c u' where u: "u = c # u'" by (cases u) auto
  with assms have "bt fl (Many a # r) (u' @ s) \<noteq> None" by (intro bt_Many_ok) simp_all
  with assms(2) u show ?thesis by auto
qed

lemma bt_Few_more:
  assumes "bt fl r s \<noteq> None"
  shows "bt fl (Few a # r) s \<noteq> None"
  using assms by (cases s) (auto split: option.splits)

lemma bt_Few_ok:
  "\<forall>c\<in>set u. accepts fl a c \<Longrightarrow> bt fl r s \<noteq> None \<Longrightarrow> bt fl (Few a # r) (u @ s) \<noteq> None"
proof (induction u)
  case Nil
  then show ?case using bt_Few_more by simp
next
  case (Cons c u)
  then have "bt fl (Few a # r) (u @ s) \<noteq> None" by simp
  with Cons.prems show ?case by (auto split: option.splits)
qed

lemma bt_lits_ok: "bt fl r s \<noteq> None \<Longrightarrow> bt fl (lits w @ r) (w @ s) \<noteq> None"
  by (simp add: bt_lits_same)

lemma line_pattern_accepts:
  assumes "starts_with_entry fl x"
  shows "bt fl line_pattern x \<noteq> None"
proof -
  from assms obtain ws A k B v rest where
    x: \<open>x = ''<string'' @ ws @ A @ ''name="'' @ k @ ''"'' @ B @ ''>'' @ v @ ''</string>'' @ rest\<close>
    and ws: "ws \<noteq> []" "\<forall>c\<in>set ws. is_space c"
    and A: \<open>CHR ''>'' \<notin> set A\<close>
    and k: "k \<noteq> []" \<open>CHR ''"'' \<notin> set k\<close>
    and B: \<open>CHR ''>'' \<notin> set B\<close>
    and v: "\<forall>c\<in>set v. accepts fl AnyChar c"
    unfolding starts_with_entry_def by blast
  have 1: \<open>bt fl (lits ''</string>'' @ [Close]) (''</string>'' @ rest) \<noteq> None\<close>
    by (rule bt_lits_ok) simp
  have 2: \<open>bt fl (Few AnyChar # Close # Open # lits ''</string>'' @ [Close])
             (v @ ''</string>'' @ rest) \<noteq> None\<close>
    using v 1 by (intro bt_Few_ok) simp_all
  have 3: \<open>bt fl (lits ''>'' @ Close # Open # Few AnyChar # Close # Open # lits ''</string>'' @ [Close])
             (''>'' @ v @ ''</string>'' @ rest) \<noteq> None\<close>
    using 2 by (intro bt_lits_ok) simp
  have 4: \<open>bt fl (Many (NoneOf ''>'') #
                lits ''>'' @ Close # Open # Few AnyChar # Close # Open # lits ''</string>'' @ [Close])
             (B @ ''>'' @ v @ ''</string>'' @ rest) \<noteq> None\<close>
    using B 3 by (intro bt_Many_ok) auto
  have 5: \<open>bt fl (lits ''"'' @ Many (NoneOf ''>'') #
                lits ''>'' @ Close # Open # Few AnyChar # Close # Open # lits ''</string>'' @ [Close])
             (''"'' @ B @ ''>'' @ v @ ''</string>'' @ rest) \<noteq> None\<close>
    using 4 by (intro bt_lits_ok)
  have 6: \<open>bt fl (Many1 (NoneOf ''"'') # Close # Open # lits ''"'' @ Many (NoneOf ''>'') #
                lits ''>'' @ Close # Open # Few AnyChar # Close # Open # lits ''</string>'' @ [Close])
             (k @ ''"'' @ B @ ''>'' @ v @ ''</string>'' @ rest) \<noteq> None\<close>
    using k 5 by (intro bt_Many1_ok) auto
  have 7: \<open>bt fl (lits ''name="'' @ Close # Open # Many1 (NoneOf ''"'') # Close # Open #
                lits ''"'' @ Many (NoneOf ''>'') #
                lits ''>'' @ Close # Open # Few AnyChar # Close # Open # lits ''</string>'' @ [Close])
             (''name="'' @ k @ ''"'' @ B @ ''>'' @ v @ ''</string>'' @ rest) \<noteq> None\<close>
    using 6 by (intro bt_lits_ok) simp
  have 8: \<open>bt fl (Many (NoneOf ''>'') #
                lits ''name="'' @ Close # Open # Many1 (NoneOf ''"'') # Close # Open #
                lits ''"'' @ Many (NoneOf ''>'') #
                lits ''>'' @ Close # Open # Few AnyChar # Close # Open # lits ''</string>'' @ [Close])
             (A @ ''name="'' @ k @ ''"'' @ B @ ''>'' @ v @ ''</string>'' @ rest) \<noteq> None\<close>
    using A 7 by (intro bt_Many_ok) auto
  have 9: \<open>bt fl (Many1 Space # Many (NoneOf ''>'') #
                lits ''name="'' @ Close # Open # Many1 (NoneOf ''"'') # Close # Open #
                lits ''"'' @ Many (NoneOf ''>'') #
                lits ''>'' @ Close # Open # Few AnyChar # Close # Open # lits ''</string>'' @ [Close])
             (ws @ A @ ''name="'' @ k @ ''"'' @ B @ ''>'' @ v @ ''</string>'' @ rest) \<noteq> None\<close>
    using ws 8 by (intro bt_Many1_ok) auto
  have 10: \<open>bt fl (lits ''<string'' @ Many1 Space # Many (NoneOf ''>'') #
                lits ''name="'' @ Close # Open # Many1 (NoneOf ''"'') # Close # Open #
                lits ''"'' @ Many (NoneOf ''>'') #
                lits ''>'' @ Close # Open # Few AnyChar # Close # Open # lits ''</string>'' @ [Close])
             (''<string'' @ ws @ A @ ''name="'' @ k @ ''"'' @ B @ ''>'' @ v @ ''</string>'' @ rest) \<noteq> None\<close>
    using 9 by (intro bt_lits_ok)
  then show ?thesis unfolding x line_pattern_def by simp
qed

lemma line_pattern_rejects:
  "bt fl line_pattern x = None \<Longrightarrow> \<not> starts_with_entry fl x"
  using line_pattern_accepts by blast

lemma line_pattern_language:
  "bt fl line_pattern x \<noteq> None \<longleftrightarrow> starts_with_entry fl x"
proof
  assume "bt fl line_pattern x \<noteq> None"
  then obtain segs rest where b: "bt fl line_pattern x = Some (segs, rest)" by auto
  from bt_line_pattern[OF b] obtain ws A k B v where
    s: \<open>segs = [[], ''<string'' @ ws @ A @ ''name="'', [], k, [], ''"'' @ B @ ''>'', [], v, [],
             ''</string>'', []]\<close>
    and h: \<open>ws \<noteq> []\<close> \<open>\<forall>c\<in>set ws. is_space c\<close> \<open>CHR ''>'' \<notin> set A\<close>
     \<open>k \<noteq> []\<close> \<open>CHR ''"'' \<notin> set k\<close> \<open>CHR ''>'' \<notin> set B\<close>
     \<open>\<forall>c\<in>set v. accepts fl AnyChar c\<close>
    by blast
  from bt_concat[OF b] s
  have \<open>x = ''<string'' @ ws @ A @ ''name="'' @ k @ ''"'' @ B @ ''>'' @ v @ ''</string>'' @ rest\<close>
    by simp
  with h show "starts_with_entry fl x" unfolding starts_with_entry_def by blast
next
  assume "starts_with_entry fl x"
  then show "bt fl line_pattern x \<noteq> None" by (rule line_pattern_accepts)
qed

lemma sync_line_empty_table:
  \<open>if \<exists>n<length line. starts_with_entry False (drop n line)
    then \<exists>line_start ws A key B v line_end.
           line = line_start @ ''<string'' @ ws @ A @ ''name="'' @ key @ ''"'' @ B @ ''>'' @ v @
                  ''</string>'' @ line_end \<and>
           (\<forall>n<length line_start. \<not> starts_with_entry False (drop n line)) \<and>
           ws \<noteq> [] \<and> (\<forall>c\<in>set ws. is_space c) \<and> CHR ''>'' \<notin> set A \<and>
           key \<noteq> [] \<and> CHR ''"'' \<notin> set key \<and> CHR ''>'' \<notin> set B \<and> newline \<notin> set v \<and>
           \<not> sublist ''</string>'' (v @ ''</string'') \<and>
           sync_line Map.empty line =
             line_start @ ''<string'' @ ws @ A @ ''name="'' @ key @ ''"'' @ B @ ''>'' @
             ''TODO: '' @ v @ ''</string>'' @ line_end
    else sync_line Map.empty line = line\<close>
proof (cases "search False line_pattern line")
  case None
  have "\<not> starts_with_entry False (drop n line)" if "n < length line" for n
    using search_none[OF None, of n] that by (intro line_pattern_rejects) simp
  then have 1: "\<not> (\<exists>n<length line. starts_with_entry False (drop n line))"
    by blast
  have 2: "sync_line Map.empty line = line"
    unfolding sync_line_def None by simp
  show ?thesis unfolding if_not_P[OF 1] by (rule 2)
next
  case (Some f)
  obtain line_start m line_end where f: "f = (line_start, m, line_end)" by (cases f)
  note s = Some[unfolded f]
  from search_line[OF s] obtain ws A k B v where
    m: \<open>m = [[], ''<string'' @ ws @ A @ ''name="'', [], k, [], ''"'' @ B @ ''>'', [], v, [],
          ''</string>'', []]\<close>
    and l: \<open>line = line_start @ ''<string'' @ ws @ A @ ''name="'' @ k @ ''"'' @ B @ ''>'' @ v @
            ''</string>'' @ line_end\<close>
    and h: \<open>ws \<noteq> []\<close> \<open>\<forall>c\<in>set ws. is_space c\<close> \<open>CHR ''>'' \<notin> set A\<close>
      \<open>k \<noteq> []\<close> \<open>CHR ''"'' \<notin> set k\<close> \<open>CHR ''>'' \<notin> set B\<close> \<open>newline \<notin> set v\<close>
    and c: \<open>\<forall>n<length v. \<not> prefix ''</string>'' (drop n (v @ ''</string>'' @ line_end))\<close>
    by blast
  from search_sound[OF s] have
    here: "bt False line_pattern (drop (length line_start) line) = Some (m, line_end)"
    and before: "\<forall>n<length line_start. bt False line_pattern (drop n line) = None"
    by simp_all
  have 1: "\<forall>n<length line_start. \<not> starts_with_entry False (drop n line)"
    using before line_pattern_rejects by blast
  have "starts_with_entry False (drop (length line_start) line)"
    using here line_pattern_language[of False "drop (length line_start) line"] by simp
  moreover have "length line_start < length line"
    unfolding l by simp
  ultimately have 2: "\<exists>n<length line. starts_with_entry False (drop n line)" by blast
  have 3: \<open>\<not> sublist ''</string>'' (v @ ''</string'')\<close>
    using c by (rule closing_tag_first)
  have 4: \<open>sync_line Map.empty line =
             line_start @ ''<string'' @ ws @ A @ ''name="'' @ k @ ''"'' @ B @ ''>'' @
             ''TODO: '' @ v @ ''</string>'' @ line_end\<close>
    unfolding sync_line_def s m by simp
  from l 1 h 3 4 have \<open>\<exists>line_start ws A key B v line_end.
           line = line_start @ ''<string'' @ ws @ A @ ''name="'' @ key @ ''"'' @ B @ ''>'' @ v @
                  ''</string>'' @ line_end \<and>
           (\<forall>n<length line_start. \<not> starts_with_entry False (drop n line)) \<and>
           ws \<noteq> [] \<and> (\<forall>c\<in>set ws. is_space c) \<and> CHR ''>'' \<notin> set A \<and>
           key \<noteq> [] \<and> CHR ''"'' \<notin> set key \<and> CHR ''>'' \<notin> set B \<and> newline \<notin> set v \<and>
           \<not> sublist ''</string>'' (v @ ''</string'') \<and>
           sync_line Map.empty line =
             line_start @ ''<string'' @ ws @ A @ ''name="'' @ key @ ''"'' @ B @ ''>'' @
             ''TODO: '' @ v @ ''</string>'' @ line_end\<close>
    by blast
  then show ?thesis unfolding if_P[OF 2] .
qed

section \<open>Properties of the synchronisation\<close>

text \<open>
  C1, as amended. Let the target file exist and hold no entry (an empty file is such a
  file), and let the English file, read in text mode, be the lines \<open>body @ [newline]\<close>
  for the \<open>bodies\<close>, followed by a \<open>tail\<close> without a newline (empty when the file ends
  with a newline). After \<open>sync_file\<close> the target file is the concatenation of one new
  line per line, in order. A line in which no entry starts at any position is copied
  as it is. In every other line the entry that starts first gets \<open>TODO: \<close> in front of
  its content, which ends at the first closing tag; the text before the entry, the
  opening tag with its key, the closing tag and the rest of the line are kept. So only
  the first entry of a line is marked: a second entry on the same line is part of the
  rest of the line and is copied without \<open>TODO: \<close>, as the example after the theorem
  shows.
\<close>

theorem empty_target_marks_first_entry_of_each_line:
  assumes "prefix ''values-'' d"
    and "nodes w ENGLISH_FILE = Some (File c)"
    and "nodes w (target_file_of d) = Some (File t)"
    and "translations_of (universal_newlines t) = Map.empty"
    and "universal_newlines c = concat (map (\<lambda>body. body @ [newline]) bodies) @ tail"
    and "\<forall>body\<in>set bodies. newline \<notin> set body"
    and "newline \<notin> set tail"
  shows \<open>\<exists>new_lines.
     fst (sync_file d w) = Inr () \<and>
     nodes (snd (sync_file d w)) = (nodes w)(target_file_of d \<mapsto> File (concat new_lines)) \<and>
     list_all2 (\<lambda>line new_line.
        if \<exists>n<length line. starts_with_entry False (drop n line)
        then \<exists>line_start ws A key B v line_end.
               line = line_start @ ''<string'' @ ws @ A @ ''name="'' @ key @ ''"'' @ B @ ''>'' @
                      v @ ''</string>'' @ line_end \<and>
               (\<forall>n<length line_start. \<not> starts_with_entry False (drop n line)) \<and>
               ws \<noteq> [] \<and> (\<forall>c\<in>set ws. is_space c) \<and> CHR ''>'' \<notin> set A \<and>
               key \<noteq> [] \<and> CHR ''"'' \<notin> set key \<and> CHR ''>'' \<notin> set B \<and> newline \<notin> set v \<and>
               \<not> sublist ''</string>'' (v @ ''</string'') \<and>
               new_line =
                 line_start @ ''<string'' @ ws @ A @ ''name="'' @ key @ ''"'' @ B @ ''>'' @
                 ''TODO: '' @ v @ ''</string>'' @ line_end
        else new_line = line)
       (map (\<lambda>body. body @ [newline]) bodies @ (if tail = [] then [] else [tail])) new_lines\<close>
proof -
  let ?lines = "map (\<lambda>body. body @ [newline]) bodies @ (if tail = [] then [] else [tail])"
  let ?P = \<open>\<lambda>line new_line.
        if \<exists>n<length line. starts_with_entry False (drop n line)
        then \<exists>line_start ws A key B v line_end.
               line = line_start @ ''<string'' @ ws @ A @ ''name="'' @ key @ ''"'' @ B @ ''>'' @
                      v @ ''</string>'' @ line_end \<and>
               (\<forall>n<length line_start. \<not> starts_with_entry False (drop n line)) \<and>
               ws \<noteq> [] \<and> (\<forall>c\<in>set ws. is_space c) \<and> CHR ''>'' \<notin> set A \<and>
               key \<noteq> [] \<and> CHR ''"'' \<notin> set key \<and> CHR ''>'' \<notin> set B \<and> newline \<notin> set v \<and>
               \<not> sublist ''</string>'' (v @ ''</string'') \<and>
               new_line =
                 line_start @ ''<string'' @ ws @ A @ ''name="'' @ key @ ''"'' @ B @ ''>'' @
                 ''TODO: '' @ v @ ''</string>'' @ line_end
        else new_line = line\<close>
  have l: "readlines (universal_newlines c) = ?lines"
    unfolding assms(5) using assms(6,7) by (rule readlines_bodies)
  have "\<forall>line\<in>set ?lines. ?P line (sync_line Map.empty line)"
    using sync_line_empty_table by blast
  then have 1: "list_all2 ?P ?lines (map (sync_line Map.empty) ?lines)"
    unfolding list_all2_map2 by (rule list_all2_same[THEN iffD2])
  have 2: "fst (sync_file d w) = Inr ()"
    "nodes (snd (sync_file d w)) =
       (nodes w)(target_file_of d \<mapsto> File (concat (map (sync_line Map.empty) ?lines)))"
    using sync_file_run[OF assms(1-3)] by (simp_all add: sync_lines_map l assms(4))
  show ?thesis
    by (rule exI[of _ "map (sync_line Map.empty) ?lines"])
       (rule conjI[OF 2(1) conjI[OF 2(2) 1]])
qed

theorem empty_target_marks_first_entry_of_each_line_witness:
  \<open>fst (sync_file ''values-fr''
      \<lparr>nodes = [ENGLISH_FILE \<mapsto>
                  File (''<resources>'' @ [carriage_return, newline] @
                        ''  <string name="greeting">Hello</string> <string name="b">B</string>\<newline>  <!-- c -->\<newline></resources>''),
                target_file_of ''values-fr'' \<mapsto> File []],
       trace = []\<rparr>) = Inr () \<and>
   nodes (snd (sync_file ''values-fr''
      \<lparr>nodes = [ENGLISH_FILE \<mapsto>
                  File (''<resources>'' @ [carriage_return, newline] @
                        ''  <string name="greeting">Hello</string> <string name="b">B</string>\<newline>  <!-- c -->\<newline></resources>''),
                target_file_of ''values-fr'' \<mapsto> File []],
       trace = []\<rparr>)) (target_file_of ''values-fr'') =
     Some (File ''<resources>\<newline>  <string name="greeting">TODO: Hello</string> <string name="b">B</string>\<newline>  <!-- c -->\<newline></resources>'')\<close>
proof -
  let ?c = \<open>''<resources>'' @ [carriage_return, newline] @
     ''  <string name="greeting">Hello</string> <string name="b">B</string>\<newline>  <!-- c -->\<newline></resources>''\<close>
  let ?w = \<open>\<lparr>nodes = [ENGLISH_FILE \<mapsto> File ?c, target_file_of ''values-fr'' \<mapsto> File []],
       trace = []\<rparr>\<close>
  have p: "prefix ''values-'' ''values-fr''" by simp
  have c: \<open>nodes ?w ENGLISH_FILE = Some (File ?c)\<close>
    by (simp add: ENGLISH_FILE_def VALUES_DIR_def target_file_of_def)
  have t: \<open>nodes ?w (target_file_of ''values-fr'') = Some (File [])\<close>
    by simp
  have e: "translations_of (universal_newlines []) = Map.empty"
    by (simp add: translations_of_def finditer.simps load_pattern_def lits_def)
  have u: \<open>universal_newlines ?c =
     concat (map (\<lambda>body. body @ [newline])
       [''<resources>'', ''  <string name="greeting">Hello</string> <string name="b">B</string>'',
        ''  <!-- c -->'']) @
     ''</resources>''\<close>
    by code_simp
  have hb: \<open>\<forall>body\<in>set [''<resources>'', ''  <string name="greeting">Hello</string> <string name="b">B</string>'',
        ''  <!-- c -->'']. newline \<notin> set body\<close>
    by (simp add: newline_def)
  have ht: \<open>newline \<notin> set ''</resources>''\<close>
    by (simp add: newline_def)
  have l: \<open>readlines (universal_newlines ?c) =
     [''<resources>\<newline>'', ''  <string name="greeting">Hello</string> <string name="b">B</string>\<newline>'',
      ''  <!-- c -->\<newline>'', ''</resources>'']\<close>
    by code_simp
  have s1: \<open>search False line_pattern ''<resources>\<newline>'' = None\<close>
    by code_simp
  have s2: \<open>search False line_pattern
      ''  <string name="greeting">Hello</string> <string name="b">B</string>\<newline>'' =
    Some (''  '', [[], ''<string name="'', [], ''greeting'', [], ''">'', [], ''Hello'', [],
               ''</string>'', []], '' <string name="b">B</string>\<newline>'')\<close>
    by code_simp
  have s3: \<open>search False line_pattern ''  <!-- c -->\<newline>'' = None\<close>
    by code_simp
  have s4: \<open>search False line_pattern ''</resources>'' = None\<close>
    by code_simp
  have a1: \<open>sync_line Map.empty ''<resources>\<newline>'' = ''<resources>\<newline>''\<close>
    unfolding sync_line_def s1 by simp
  have a2: \<open>sync_line Map.empty ''  <string name="greeting">Hello</string> <string name="b">B</string>\<newline>'' =
            ''  <string name="greeting">TODO: Hello</string> <string name="b">B</string>\<newline>''\<close>
    unfolding sync_line_def s2 by simp
  have a3: \<open>sync_line Map.empty ''  <!-- c -->\<newline>'' = ''  <!-- c -->\<newline>''\<close>
    unfolding sync_line_def s3 by simp
  have a4: \<open>sync_line Map.empty ''</resources>'' = ''</resources>''\<close>
    unfolding sync_line_def s4 by simp
  have x: \<open>nodes (snd (sync_file ''values-fr'' ?w)) (target_file_of ''values-fr'') =
     Some (File ''<resources>\<newline>  <string name="greeting">TODO: Hello</string> <string name="b">B</string>\<newline>  <!-- c -->\<newline></resources>'')\<close>
    unfolding sync_file_run[OF p c t] e l sync_lines_map list.map a1 a2 a3 a4 by simp
  from empty_target_marks_first_entry_of_each_line[OF p c t e u hb ht]
  have \<open>fst (sync_file ''values-fr'' ?w) = Inr ()\<close>
    by blast
  with x show ?thesis by blast
qed

theorem second_entry_of_a_line_is_copied:
  \<open>nodes (snd (sync_file ''values-fr''
      \<lparr>nodes = [ENGLISH_FILE \<mapsto> File ''<string name="a">A</string><string name="b">B</string>'',
                target_file_of ''values-fr'' \<mapsto> File []],
       trace = []\<rparr>)) (target_file_of ''values-fr'') =
     Some (File ''<string name="a">TODO: A</string><string name="b">B</string>'')\<close>
proof -
  let ?c = \<open>''<string name="a">A</string><string name="b">B</string>''\<close>
  let ?w = \<open>\<lparr>nodes = [ENGLISH_FILE \<mapsto> File ?c, target_file_of ''values-fr'' \<mapsto> File []],
       trace = []\<rparr>\<close>
  have p: "prefix ''values-'' ''values-fr''" by simp
  have c: \<open>nodes ?w ENGLISH_FILE = Some (File ?c)\<close>
    by (simp add: ENGLISH_FILE_def VALUES_DIR_def target_file_of_def)
  have t: \<open>nodes ?w (target_file_of ''values-fr'') = Some (File [])\<close>
    by simp
  have e: "translations_of (universal_newlines []) = Map.empty"
    by (simp add: translations_of_def finditer.simps load_pattern_def lits_def)
  have l: \<open>readlines (universal_newlines ?c) = [?c]\<close>
    by code_simp
  have s: \<open>search False line_pattern ?c =
    Some ([], [[], ''<string name="'', [], ''a'', [], ''">'', [], ''A'', [],
               ''</string>'', []], ''<string name="b">B</string>'')\<close>
    by code_simp
  have a: \<open>sync_line Map.empty ?c = ''<string name="a">TODO: A</string><string name="b">B</string>''\<close>
    unfolding sync_line_def s by simp
  show ?thesis
    unfolding sync_file_run[OF p c t] e l sync_lines_map list.map a by simp
qed




text \<open>
  C3, as amended. An entry of the target file whose key is the key of no English entry
  line is not kept: the file is overwritten with the rewritten English lines, and what
  is written is what would be written had the table no value for that key.
\<close>

theorem keys_absent_from_canonical_are_not_kept:
  assumes "prefix ''values-'' d"
    and "nodes w ENGLISH_FILE = Some (File c)"
    and "nodes w (target_file_of d) = Some (File t)"
    and "\<forall>line\<in>set (readlines (universal_newlines c)).
           case search False line_pattern line of
             None \<Rightarrow> True
           | Some (line_start, m, line_end) \<Rightarrow> match_group 2 m \<noteq> k"
  shows "fst (sync_file d w) = Inr () \<and>
         nodes (snd (sync_file d w)) (target_file_of d) =
           Some (File (concat (sync_lines ((translations_of (universal_newlines t))(k := None))
                                 (readlines (universal_newlines c)))))"
proof -
  have "sync_lines (translations_of (universal_newlines t)) (readlines (universal_newlines c)) =
        sync_lines ((translations_of (universal_newlines t))(k := None))
          (readlines (universal_newlines c))"
    by (rule sync_lines_cong) (use assms(4) in \<open>auto split: option.splits\<close>)
  with sync_file_run[OF assms(1-3)] show ?thesis by simp
qed

theorem keys_absent_from_canonical_are_not_kept_witness:
  \<open>nodes (snd (sync_file ''values-fr''
      \<lparr>nodes = [ENGLISH_FILE \<mapsto> File ''<string name="a">A</string>\<newline>'',
                target_file_of ''values-fr'' \<mapsto>
                  File ''<string name="a">X</string>\<newline><string name="old">Y</string>\<newline>''],
       trace = []\<rparr>)) (target_file_of ''values-fr'') =
     Some (File (concat (sync_lines
       ((translations_of (universal_newlines
           ''<string name="a">X</string>\<newline><string name="old">Y</string>\<newline>''))
          (''old'' := None))
       (readlines (universal_newlines ''<string name="a">A</string>\<newline>'')))))\<close>
proof -
  have p: "prefix ''values-'' ''values-fr''" by simp
  have c: \<open>nodes \<lparr>nodes = [ENGLISH_FILE \<mapsto> File ''<string name="a">A</string>\<newline>'',
                target_file_of ''values-fr'' \<mapsto>
                  File ''<string name="a">X</string>\<newline><string name="old">Y</string>\<newline>''],
       trace = []\<rparr> ENGLISH_FILE = Some (File ''<string name="a">A</string>\<newline>'')\<close>
    by (simp add: ENGLISH_FILE_def VALUES_DIR_def target_file_of_def)
  have t: \<open>nodes \<lparr>nodes = [ENGLISH_FILE \<mapsto> File ''<string name="a">A</string>\<newline>'',
                target_file_of ''values-fr'' \<mapsto>
                  File ''<string name="a">X</string>\<newline><string name="old">Y</string>\<newline>''],
       trace = []\<rparr> (target_file_of ''values-fr'') =
      Some (File ''<string name="a">X</string>\<newline><string name="old">Y</string>\<newline>'')\<close>
    by simp
  have l: \<open>readlines (universal_newlines ''<string name="a">A</string>\<newline>'') =
           [''<string name="a">A</string>\<newline>'']\<close>
    by code_simp
  have s: \<open>search False line_pattern ''<string name="a">A</string>\<newline>'' =
    Some ([], [[], ''<string name="'', [], ''a'', [], ''">'', [], ''A'', [],
               ''</string>'', []], ''\<newline>'')\<close>
    by code_simp
  have k: \<open>\<forall>line\<in>set (readlines (universal_newlines ''<string name="a">A</string>\<newline>'')).
           case search False line_pattern line of
             None \<Rightarrow> True
           | Some (line_start, m, line_end) \<Rightarrow> match_group 2 m \<noteq> ''old''\<close>
    unfolding l list.set ball_simps s by simp
  from keys_absent_from_canonical_are_not_kept[OF p c t k] show ?thesis
    by (rule conjunct2)
qed

theorem target_only_key_is_lost:
  \<open>translations_of (universal_newlines
      ''<string name="a">X</string>\<newline><string name="old">Y</string>\<newline>'') ''old'' =
     Some ''Y'' \<and>
   nodes (snd (sync_file ''values-fr''
      \<lparr>nodes = [ENGLISH_FILE \<mapsto> File ''<string name="a">A</string>\<newline>'',
                target_file_of ''values-fr'' \<mapsto>
                  File ''<string name="a">X</string>\<newline><string name="old">Y</string>\<newline>''],
       trace = []\<rparr>)) (target_file_of ''values-fr'') =
     Some (File ''<string name="a">X</string>\<newline>'') \<and>
   \<not> sublist ''old'' ''<string name="a">X</string>\<newline>''\<close>
proof -
  have p: "prefix ''values-'' ''values-fr''" by simp
  have c: \<open>nodes \<lparr>nodes = [ENGLISH_FILE \<mapsto> File ''<string name="a">A</string>\<newline>'',
                target_file_of ''values-fr'' \<mapsto>
                  File ''<string name="a">X</string>\<newline><string name="old">Y</string>\<newline>''],
       trace = []\<rparr> ENGLISH_FILE = Some (File ''<string name="a">A</string>\<newline>'')\<close>
    by (simp add: ENGLISH_FILE_def VALUES_DIR_def target_file_of_def)
  have t: \<open>nodes \<lparr>nodes = [ENGLISH_FILE \<mapsto> File ''<string name="a">A</string>\<newline>'',
                target_file_of ''values-fr'' \<mapsto>
                  File ''<string name="a">X</string>\<newline><string name="old">Y</string>\<newline>''],
       trace = []\<rparr> (target_file_of ''values-fr'') =
      Some (File ''<string name="a">X</string>\<newline><string name="old">Y</string>\<newline>'')\<close>
    by simp
  have u: \<open>universal_newlines
      ''<string name="a">X</string>\<newline><string name="old">Y</string>\<newline>'' =
      ''<string name="a">X</string>\<newline><string name="old">Y</string>\<newline>''\<close>
    by code_simp
  have f: \<open>finditer True load_pattern
      ''<string name="a">X</string>\<newline><string name="old">Y</string>\<newline>'' =
     [[''<string name="'', ''a'', ''">'', ''X'', ''</string>''],
      [''<string name="'', ''old'', ''">'', ''Y'', ''</string>'']]\<close>
    by code_simp
  have tr: \<open>translations_of
      ''<string name="a">X</string>\<newline><string name="old">Y</string>\<newline>'' =
      [''a'' \<mapsto> ''X'', ''old'' \<mapsto> ''Y'']\<close>
    unfolding translations_of_def f by simp
  have l: \<open>readlines (universal_newlines ''<string name="a">A</string>\<newline>'') =
           [''<string name="a">A</string>\<newline>'']\<close>
    by code_simp
  have s: \<open>search False line_pattern ''<string name="a">A</string>\<newline>'' =
    Some ([], [[], ''<string name="'', [], ''a'', [], ''">'', [], ''A'', [],
               ''</string>'', []], ''\<newline>'')\<close>
    by code_simp
  have sl: \<open>sync_line [''a'' \<mapsto> ''X'', ''old'' \<mapsto> ''Y''] ''<string name="a">A</string>\<newline>'' =
     ''<string name="a">X</string>\<newline>''\<close>
    unfolding sync_line_def s by simp
  have r: \<open>concat (sync_lines (translations_of (universal_newlines
      ''<string name="a">X</string>\<newline><string name="old">Y</string>\<newline>''))
      (readlines (universal_newlines ''<string name="a">A</string>\<newline>''))) =
      ''<string name="a">X</string>\<newline>''\<close>
    unfolding u tr l sync_lines_map using sl by simp
  have before: \<open>translations_of (universal_newlines
      ''<string name="a">X</string>\<newline><string name="old">Y</string>\<newline>'') ''old'' =
     Some ''Y''\<close>
    unfolding u tr by simp
  have after: \<open>nodes (snd (sync_file ''values-fr''
      \<lparr>nodes = [ENGLISH_FILE \<mapsto> File ''<string name="a">A</string>\<newline>'',
                target_file_of ''values-fr'' \<mapsto>
                  File ''<string name="a">X</string>\<newline><string name="old">Y</string>\<newline>''],
       trace = []\<rparr>)) (target_file_of ''values-fr'') =
     Some (File ''<string name="a">X</string>\<newline>'')\<close>
    unfolding sync_file_run[OF p c t, unfolded r] by simp
  have gone: \<open>\<not> sublist ''old'' ''<string name="a">X</string>\<newline>''\<close>
    by (simp add: sublist_Cons_right)
  from before after gone show ?thesis by blast
qed

text \<open>
  C4. A line that matches the entry pattern is rewritten in its inner content only: the
  text before the match, the opening tag with its key and every attribute, the closing
  tag and the text after the match are the same characters in the line and in its
  rewriting. The new content is the translation of the key when the table has one and
  \<open>TODO: \<close> followed by the old content otherwise.
\<close>

theorem rewrite_changes_content_only:
  assumes "search False line_pattern line = Some (line_start, m, line_end)"
  shows \<open>\<exists>ws A B.
     line = line_start @ ''<string'' @ ws @ A @ ''name="'' @ match_group 2 m @ ''"'' @ B @ ''>'' @
            match_group 4 m @ ''</string>'' @ line_end \<and>
     sync_line current_translations line =
            line_start @ ''<string'' @ ws @ A @ ''name="'' @ match_group 2 m @ ''"'' @ B @ ''>'' @
            (case current_translations (match_group 2 m) of
               Some localized_value \<Rightarrow> localized_value
             | None \<Rightarrow> ''TODO: '' @ match_group 4 m) @ ''</string>'' @ line_end\<close>
proof -
  from search_line[OF assms] obtain ws A k B v where
    m: \<open>m = [[], ''<string'' @ ws @ A @ ''name="'', [], k, [], ''"'' @ B @ ''>'', [], v, [],
          ''</string>'', []]\<close>
    and l: \<open>line = line_start @ ''<string'' @ ws @ A @ ''name="'' @ k @ ''"'' @ B @ ''>'' @ v @
            ''</string>'' @ line_end\<close>
    by blast
  have g: "match_group 2 m = k" "match_group 4 m = v"
    by (simp_all add: m)
  have \<open>sync_line current_translations line =
            line_start @ ''<string'' @ ws @ A @ ''name="'' @ k @ ''"'' @ B @ ''>'' @
            (case current_translations k of
               Some localized_value \<Rightarrow> localized_value
             | None \<Rightarrow> ''TODO: '' @ v) @ ''</string>'' @ line_end\<close>
    unfolding sync_line_def assms by (simp add: m split: option.splits)
  with l show ?thesis unfolding g by blast
qed

theorem rewrite_changes_content_only_witness:
  \<open>\<exists>ws A B.
     ''  <string name="greeting">Hello</string>'' = ''  '' @ ''<string'' @ ws @ A @ ''name="'' @ ''greeting'' @ ''"'' @ B @ ''>'' @
            ''Hello'' @ ''</string>'' @ [] \<and>
     sync_line [''greeting'' \<mapsto> ''Bonjour''] ''  <string name="greeting">Hello</string>'' =
            ''  '' @ ''<string'' @ ws @ A @ ''name="'' @ ''greeting'' @ ''"'' @ B @ ''>'' @
            ''Bonjour'' @ ''</string>'' @ []\<close>
proof -
  have s: \<open>search False line_pattern ''  <string name="greeting">Hello</string>'' =
    Some (''  '', [[], ''<string name="'', [], ''greeting'', [], ''">'', [], ''Hello'', [], ''</string>'', []], [])\<close>
    by code_simp
  from rewrite_changes_content_only[OF s, of \<open>[''greeting'' \<mapsto> ''Bonjour'']\<close>]
  show ?thesis by simp
qed

text \<open>
  C5, as amended. Every value \<open>v\<close> that \<open>load_translations\<close> gives to a key \<open>k\<close> stands in
  the text of the file between an opening tag with \<open>name="k"\<close> and a closing tag
  \<open></string>\<close>, and no closing tag starts inside \<open>v\<close>: the value ends at the first closing
  tag after the opening tag. In the other direction, let the text be a sequence of
  entries \<open><string ws A name="K" B>V</string>\<close>, each after a gap, followed by any text
  \<open>b\<close>, where no gap holds \<open><string\<close> followed by white space, the opening tags have no
  \<open>>\<close> inside and no second \<open>name="\<close> after the key, and no closing tag starts inside a
  content \<open>V\<close>. Then the last entry of the sequence, with key \<open>KEY\<close> and content \<open>a\<close>,
  gives \<open>KEY\<close> the value \<open>a\<close> whatever \<open>b\<close> is (it may go on to a second closing tag
  meant to end the entry), unless \<open>name="KEY"\<close> stands again in \<open>b\<close>. The condition on
  the text before the entry is needed: an entry that stands behind an opening tag with
  no closing tag of its own is part of the value of that tag and gets no value, as the
  example after the theorem shows.
\<close>

theorem content_ends_at_first_closing_tag:
  \<open>(nodes w file_path = Some (File content) \<and>
    fst (load_translations file_path w) = Inr translations \<and> translations k = Some v \<longrightarrow>
      (\<exists>before ws A B rest.
         universal_newlines content =
           before @ ''<string'' @ ws @ A @ ''name="'' @ k @ ''"'' @ B @ ''>'' @ v @
           ''</string>'' @ rest \<and>
         CHR ''>'' \<notin> set B \<and>
         \<not> sublist ''</string>'' (v @ ''</string''))) \<and>
   (nodes w file_path = Some (File content) \<and>
    universal_newlines content =
      concat (map (\<lambda>(gap, ws, A, k, B, v).
         gap @ ''<string'' @ ws @ A @ ''name="'' @ k @ ''"'' @ B @ ''>'' @ v @ ''</string>'')
        (es @ [(gap, ws, A, key, B, a)])) @ b \<and>
    (\<forall>(gap, ws, A, k, B, v)\<in>set (es @ [(gap, ws, A, key, B, a)]).
      (\<forall>c. is_space c \<longrightarrow> \<not> sublist (''<string'' @ [c]) gap) \<and>
      ws \<noteq> [] \<and> (\<forall>c\<in>set ws. is_space c) \<and> CHR ''>'' \<notin> set A \<and>
      k \<noteq> [] \<and> CHR ''"'' \<notin> set k \<and> CHR ''>'' \<notin> set k \<and> CHR ''>'' \<notin> set B \<and>
      \<not> sublist ''name="'' (k @ ''"'' @ B) \<and> \<not> sublist ''</string>'' (v @ ''</string'')) \<and>
    \<not> sublist (''name="'' @ key @ ''"'') b \<longrightarrow>
      (\<exists>translations. fst (load_translations file_path w) = Inr translations \<and>
         translations key = Some a))\<close>
proof (intro conjI impI)
  assume h: \<open>nodes w file_path = Some (File content) \<and>
    fst (load_translations file_path w) = Inr translations \<and> translations k = Some v\<close>
  then have "translations_of (universal_newlines content) k = Some v"
    using load_translations_file[of w file_path content] by auto
  then show \<open>\<exists>before ws A B rest.
         universal_newlines content =
           before @ ''<string'' @ ws @ A @ ''name="'' @ k @ ''"'' @ B @ ''>'' @ v @
           ''</string>'' @ rest \<and>
         CHR ''>'' \<notin> set B \<and>
         \<not> sublist ''</string>'' (v @ ''</string'')\<close>
    by (rule table_entry)
next
  assume h: \<open>nodes w file_path = Some (File content) \<and>
    universal_newlines content =
      concat (map (\<lambda>(gap, ws, A, k, B, v).
         gap @ ''<string'' @ ws @ A @ ''name="'' @ k @ ''"'' @ B @ ''>'' @ v @ ''</string>'')
        (es @ [(gap, ws, A, key, B, a)])) @ b \<and>
    (\<forall>(gap, ws, A, k, B, v)\<in>set (es @ [(gap, ws, A, key, B, a)]).
      (\<forall>c. is_space c \<longrightarrow> \<not> sublist (''<string'' @ [c]) gap) \<and>
      ws \<noteq> [] \<and> (\<forall>c\<in>set ws. is_space c) \<and> CHR ''>'' \<notin> set A \<and>
      k \<noteq> [] \<and> CHR ''"'' \<notin> set k \<and> CHR ''>'' \<notin> set k \<and> CHR ''>'' \<notin> set B \<and>
      \<not> sublist ''name="'' (k @ ''"'' @ B) \<and> \<not> sublist ''</string>'' (v @ ''</string'')) \<and>
    \<not> sublist (''name="'' @ key @ ''"'') b\<close>
  note n0 = h[THEN conjunct1]
  note u = h[THEN conjunct2, THEN conjunct1]
  note e = h[THEN conjunct2, THEN conjunct2, THEN conjunct1]
  note later = h[THEN conjunct2, THEN conjunct2, THEN conjunct2]
  have f: \<open>finditer True load_pattern (universal_newlines content) =
      map (\<lambda>(gap, ws, A, k, B, v).
         [''<string'' @ ws @ A @ ''name="'', k, ''"'' @ B @ ''>'', v, ''</string>'']) es @
      [''<string'' @ ws @ A @ ''name="'', key, ''"'' @ B @ ''>'', a, ''</string>''] #
      finditer True load_pattern b\<close>
    unfolding u finditer_entries[OF e] by simp
  have n: \<open>key \<notin> match_group 1 ` set (finditer True load_pattern b)\<close>
    using later by (rule key_not_named)
  have \<open>foldl (\<lambda>tr m. tr(match_group 1 m \<mapsto> match_group 2 m)) Map.empty
      (map (\<lambda>(gap, ws, A, k, B, v).
         [''<string'' @ ws @ A @ ''name="'', k, ''"'' @ B @ ''>'', v, ''</string>'']) es @
       [''<string'' @ ws @ A @ ''name="'', key, ''"'' @ B @ ''>'', a, ''</string>''] #
       finditer True load_pattern b) key =
     Some (match_group 2
       [''<string'' @ ws @ A @ ''name="'', key, ''"'' @ B @ ''>'', a, ''</string>''])\<close>
    using n by (intro fill_last) simp_all
  then have \<open>translations_of (universal_newlines content) key = Some a\<close>
    unfolding translations_of_def f by simp
  with load_translations_file[OF n0]
  show \<open>\<exists>translations. fst (load_translations file_path w) = Inr translations \<and>
         translations key = Some a\<close>
    by simp
qed

theorem content_ends_at_first_closing_tag_witness:
  \<open>(\<exists>translations.
      fst (load_translations ''f''
         \<lparr>nodes = [''f'' \<mapsto> File (''<resources>'' @ [carriage_return, newline] @
            ''  <string name="greeting">Hello</string>\<newline>  <string name="a" translatable="false">x</string>y</string>\<newline></resources>\<newline>'')],
          trace = []\<rparr>) =
        Inr translations \<and> translations ''a'' = Some ''x'') \<and>
   (\<exists>before ws A B rest.
     universal_newlines (''<resources>'' @ [carriage_return, newline] @
        ''  <string name="greeting">Hello</string>\<newline>  <string name="a" translatable="false">x</string>y</string>\<newline></resources>\<newline>'') =
        before @ ''<string'' @ ws @ A @ ''name="'' @ ''a'' @ ''"'' @ B @ ''>'' @ ''x'' @
               ''</string>'' @ rest \<and>
     CHR ''>'' \<notin> set B \<and>
     \<not> sublist ''</string>'' (''x'' @ ''</string''))\<close>
proof -
  let ?c = \<open>''<resources>'' @ [carriage_return, newline] @
    ''  <string name="greeting">Hello</string>\<newline>  <string name="a" translatable="false">x</string>y</string>\<newline></resources>\<newline>''\<close>
  let ?w = \<open>\<lparr>nodes = [''f'' \<mapsto> File ?c], trace = []\<rparr>\<close>
  let ?es = \<open>[(''<resources>\<newline>  '', '' '', '''', ''greeting'', '''', ''Hello'')]\<close>
  have n: \<open>nodes ?w ''f'' = Some (File ?c)\<close>
    by simp
  have u: \<open>universal_newlines ?c =
     concat (map (\<lambda>(gap, ws, A, k, B, v).
         gap @ ''<string'' @ ws @ A @ ''name="'' @ k @ ''"'' @ B @ ''>'' @ v @ ''</string>'')
        (?es @ [(''\<newline>  '', '' '', '''', ''a'', '' translatable="false"'', ''x'')])) @
     ''y</string>\<newline></resources>\<newline>''\<close>
    by code_simp
  have he: \<open>\<forall>(gap, ws, A, k, B, v)\<in>set
        (?es @ [(''\<newline>  '', '' '', '''', ''a'', '' translatable="false"'', ''x'')]).
      (\<forall>c. is_space c \<longrightarrow> \<not> sublist (''<string'' @ [c]) gap) \<and>
      ws \<noteq> [] \<and> (\<forall>c\<in>set ws. is_space c) \<and> CHR ''>'' \<notin> set A \<and>
      k \<noteq> [] \<and> CHR ''"'' \<notin> set k \<and> CHR ''>'' \<notin> set k \<and> CHR ''>'' \<notin> set B \<and>
      \<not> sublist ''name="'' (k @ ''"'' @ B) \<and> \<not> sublist ''</string>'' (v @ ''</string'')\<close>
    by code_simp
  have h: \<open>\<not> sublist (''name="'' @ ''a'' @ ''"'') ''y</string>\<newline></resources>\<newline>''\<close>
    by code_simp
  note inst = content_ends_at_first_closing_tag[of ?w \<open>''f''\<close> ?c _ \<open>''a''\<close> \<open>''x''\<close> ?es
      \<open>''\<newline>  ''\<close> \<open>'' ''\<close> \<open>''''\<close> \<open>''a''\<close> \<open>'' translatable="false"''\<close> \<open>''x''\<close>
      \<open>''y</string>\<newline></resources>\<newline>''\<close>]
  from inst n u he h obtain tab where
    t: \<open>fst (load_translations ''f'' ?w) = Inr tab\<close> \<open>tab ''a'' = Some ''x''\<close>
    by blast
  with inst[of tab] n have \<open>\<exists>before ws A B rest.
     universal_newlines ?c =
        before @ ''<string'' @ ws @ A @ ''name="'' @ ''a'' @ ''"'' @ B @ ''>'' @ ''x'' @
               ''</string>'' @ rest \<and>
     CHR ''>'' \<notin> set B \<and>
     \<not> sublist ''</string>'' (''x'' @ ''</string'')\<close>
    by blast
  with t show ?thesis by blast
qed

theorem entry_behind_an_open_tag_gets_no_value:
  \<open>fst (load_translations ''f''
      \<lparr>nodes = [''f'' \<mapsto> File ''<string name="e"/>\<newline><string name="k">x</string>y</string>''],
       trace = []\<rparr>) =
   Inr [''e'' \<mapsto> ''\<newline><string name="k">x'']\<close>
proof -
  let ?c = \<open>''<string name="e"/>\<newline><string name="k">x</string>y</string>''\<close>
  let ?w = \<open>\<lparr>nodes = [''f'' \<mapsto> File ?c], trace = []\<rparr>\<close>
  have n: \<open>nodes ?w ''f'' = Some (File ?c)\<close>
    by simp
  have u: \<open>universal_newlines ?c = ?c\<close>
    by code_simp
  have f: \<open>finditer True load_pattern ?c =
     [[''<string name="'', ''e'', ''"/>'', ''\<newline><string name="k">x'', ''</string>'']]\<close>
    by code_simp
  have \<open>translations_of ?c = [''e'' \<mapsto> ''\<newline><string name="k">x'']\<close>
    unfolding translations_of_def f by simp
  with load_translations_file[OF n] show ?thesis unfolding u by simp
qed

text \<open>
  C6. When the English file is the line \<open><string name="greeting">Hello</string>\<close> and
  the target file is the line \<open><string name="greeting">Bonjour</string>\<close> (both with
  the same line end, or both with none), \<open>sync_file\<close> leaves every file as it was.
\<close>

theorem bonjour_is_kept:
  assumes "prefix ''values-'' d"
    and "e = [] \<or> e = [newline]"
    and \<open>nodes w ENGLISH_FILE = Some (File (''<string name="greeting">Hello</string>'' @ e))\<close>
    and \<open>nodes w (target_file_of d) =
           Some (File (''<string name="greeting">Bonjour</string>'' @ e))\<close>
  shows "fst (sync_file d w) = Inr () \<and> nodes (snd (sync_file d w)) = nodes w"
proof -
  have u: \<open>universal_newlines (''<string name="greeting">Bonjour</string>'' @ e) =
           ''<string name="greeting">Bonjour</string>'' @ e\<close>
       \<open>universal_newlines (''<string name="greeting">Hello</string>'' @ e) =
           ''<string name="greeting">Hello</string>'' @ e\<close>
    using assms(2) by (auto simp: carriage_return_def newline_def)
  have f: \<open>finditer True load_pattern (''<string name="greeting">Bonjour</string>'' @ e) =
           [[''<string name="'', ''greeting'', ''">'', ''Bonjour'', ''</string>'']]\<close>
  proof (cases "e = []")
    case True
    show ?thesis unfolding True by code_simp
  next
    case False
    with assms(2) have n: "e = [newline]" by simp
    show ?thesis unfolding n by code_simp
  qed
  have tr: \<open>translations_of (''<string name="greeting">Bonjour</string>'' @ e) =
            [''greeting'' \<mapsto> ''Bonjour'']\<close>
    unfolding translations_of_def f by simp
  have l: \<open>readlines (''<string name="greeting">Hello</string>'' @ e) =
           [''<string name="greeting">Hello</string>'' @ e]\<close>
    using assms(2) by (auto simp: newline_def)
  have s: \<open>search False line_pattern (''<string name="greeting">Hello</string>'' @ e) =
    Some ([], [[], ''<string name="'', [], ''greeting'', [], ''">'', [], ''Hello'', [],
               ''</string>'', []], e)\<close>
  proof (cases "e = []")
    case True
    show ?thesis unfolding True by code_simp
  next
    case False
    with assms(2) have n: "e = [newline]" by simp
    show ?thesis unfolding n by code_simp
  qed
  have \<open>sync_line [''greeting'' \<mapsto> ''Bonjour''] (''<string name="greeting">Hello</string>'' @ e) =
        ''<string name="greeting">Bonjour</string>'' @ e\<close>
    unfolding sync_line_def s by simp
  then have r: \<open>concat (sync_lines
           (translations_of (universal_newlines (''<string name="greeting">Bonjour</string>'' @ e)))
           (readlines (universal_newlines (''<string name="greeting">Hello</string>'' @ e)))) =
        ''<string name="greeting">Bonjour</string>'' @ e\<close>
    unfolding u tr l sync_lines_map by simp
  have k: \<open>(nodes w)(target_file_of d \<mapsto>
          File (''<string name="greeting">Bonjour</string>'' @ e)) = nodes w\<close>
    using assms(4) by (rule map_upd_triv)
  show ?thesis
    unfolding sync_file_run[OF assms(1,3,4), unfolded r k] by simp
qed

theorem bonjour_is_kept_witness:
  \<open>nodes (snd (sync_file ''values-fr''
      \<lparr>nodes = [ENGLISH_FILE \<mapsto> File ''<string name="greeting">Hello</string>'',
                target_file_of ''values-fr'' \<mapsto> File ''<string name="greeting">Bonjour</string>''],
       trace = []\<rparr>)) =
   [ENGLISH_FILE \<mapsto> File ''<string name="greeting">Hello</string>'',
    target_file_of ''values-fr'' \<mapsto> File ''<string name="greeting">Bonjour</string>'']\<close>
proof -
  have p: "prefix ''values-'' ''values-fr''" by simp
  have e: "[] = [] \<or> [] = [newline]" by simp
  have c: \<open>nodes \<lparr>nodes = [ENGLISH_FILE \<mapsto> File ''<string name="greeting">Hello</string>'',
                target_file_of ''values-fr'' \<mapsto> File ''<string name="greeting">Bonjour</string>''],
       trace = []\<rparr> ENGLISH_FILE = Some (File (''<string name="greeting">Hello</string>'' @ []))\<close>
    by (simp add: ENGLISH_FILE_def VALUES_DIR_def target_file_of_def)
  have t: \<open>nodes \<lparr>nodes = [ENGLISH_FILE \<mapsto> File ''<string name="greeting">Hello</string>'',
                target_file_of ''values-fr'' \<mapsto> File ''<string name="greeting">Bonjour</string>''],
       trace = []\<rparr> (target_file_of ''values-fr'') =
        Some (File (''<string name="greeting">Bonjour</string>'' @ []))\<close>
    by simp
  from bonjour_is_kept[OF p e c t] show ?thesis
    by (simp only: world.simps)
qed

text \<open>
  C7. When the English file does not exist, \<open>main\<close> prints the source line, asks whether
  the file exists, prints the error and returns. The trace holds these three entries
  and nothing else: no directory is listed, no file is opened for reading or writing,
  and the files are as they were.
\<close>

theorem main_without_english_file:
  assumes "nodes w ENGLISH_FILE = None"
  shows "main w = (Inr (), w\<lparr>trace := trace w @
           [Print (Source ENGLISH_FILE), Exists ENGLISH_FILE, Print EnglishNotFound]\<rparr>)"
  using assms by (simp add: main_def path_exists_def emit_def)

theorem main_without_english_file_witness:
  "main \<lparr>nodes = [VALUES_DIR \<mapsto> Dir [''values-fr''],
                   path_join VALUES_DIR [''values-fr''] \<mapsto> Dir [''strings.xml''],
                   target_file_of ''values-fr'' \<mapsto> File ''<resources/>''],
         trace = []\<rparr> =
   (Inr (), \<lparr>nodes = [VALUES_DIR \<mapsto> Dir [''values-fr''],
                   path_join VALUES_DIR [''values-fr''] \<mapsto> Dir [''strings.xml''],
                   target_file_of ''values-fr'' \<mapsto> File ''<resources/>''],
         trace = [Print (Source ENGLISH_FILE), Exists ENGLISH_FILE, Print EnglishNotFound]\<rparr>)"
proof -
  have h: "nodes \<lparr>nodes = [VALUES_DIR \<mapsto> Dir [''values-fr''],
                   path_join VALUES_DIR [''values-fr''] \<mapsto> Dir [''strings.xml''],
                   target_file_of ''values-fr'' \<mapsto> File ''<resources/>''],
         trace = []\<rparr> ENGLISH_FILE = None"
    by (simp add: ENGLISH_FILE_def VALUES_DIR_def target_file_of_def)
  from main_without_english_file[OF h] show ?thesis by simp
qed


text \<open>
  C8. A directory whose name starts with \<open>values-\<close> and that holds no \<open>strings.xml\<close> is
  skipped: \<open>sync_file\<close> asks whether the file exists and returns without an error,
  without a message, without opening any file. The loop over the directories then
  ends with the same outcome and the same files as the loop without this directory.
\<close>

theorem missing_target_is_skipped:
  fixes w :: world
  assumes "prefix ''values-'' d" and "nodes w (target_file_of d) = None"
  shows "sync_file d w = (Inr (), w\<lparr>trace := trace w @ [Exists (target_file_of d)]\<rparr>) \<and>
         fst (sync_all (d # ds) w) = fst (sync_all ds w) \<and>
         nodes (snd (sync_all (d # ds) w)) = nodes (snd (sync_all ds w))"
proof -
  have s: "sync_file d w = (Inr (), w\<lparr>trace := trace w @ [Exists (target_file_of d)]\<rparr>)"
    using assms by (simp add: sync_file_def path_exists_def emit_def)
  have "nodes (w\<lparr>trace := trace w @ [Exists (target_file_of d)]\<rparr>) = nodes w"
    by simp
  from sync_all_nodes[OF this, of ds] s show ?thesis by simp
qed

theorem missing_target_is_skipped_witness:
  \<open>sync_file ''values-de'' \<lparr>nodes = [ENGLISH_FILE \<mapsto> File ''<string name="a">A</string>'',
        target_file_of ''values-fr'' \<mapsto> File []], trace = []\<rparr> =
     (Inr (), \<lparr>nodes = [ENGLISH_FILE \<mapsto> File ''<string name="a">A</string>'',
        target_file_of ''values-fr'' \<mapsto> File []],
        trace = [Exists (target_file_of ''values-de'')]\<rparr>) \<and>
   fst (sync_all [''values-de'', ''values-fr'']
      \<lparr>nodes = [ENGLISH_FILE \<mapsto> File ''<string name="a">A</string>'',
        target_file_of ''values-fr'' \<mapsto> File []], trace = []\<rparr>) =
   fst (sync_all [''values-fr'']
      \<lparr>nodes = [ENGLISH_FILE \<mapsto> File ''<string name="a">A</string>'',
        target_file_of ''values-fr'' \<mapsto> File []], trace = []\<rparr>) \<and>
   nodes (snd (sync_all [''values-de'', ''values-fr'']
      \<lparr>nodes = [ENGLISH_FILE \<mapsto> File ''<string name="a">A</string>'',
        target_file_of ''values-fr'' \<mapsto> File []], trace = []\<rparr>)) =
   nodes (snd (sync_all [''values-fr'']
      \<lparr>nodes = [ENGLISH_FILE \<mapsto> File ''<string name="a">A</string>'',
        target_file_of ''values-fr'' \<mapsto> File []], trace = []\<rparr>))\<close>
proof -
  have p: "prefix ''values-'' ''values-de''" by simp
  have h: \<open>nodes \<lparr>nodes = [ENGLISH_FILE \<mapsto> File ''<string name="a">A</string>'',
        target_file_of ''values-fr'' \<mapsto> File []], trace = []\<rparr>
        (target_file_of ''values-de'') = None\<close>
    by (simp add: ENGLISH_FILE_def VALUES_DIR_def target_file_of_def)
  have e: \<open>\<lparr>nodes = [ENGLISH_FILE \<mapsto> File ''<string name="a">A</string>'',
        target_file_of ''values-fr'' \<mapsto> File []], trace = []\<rparr>
      \<lparr>trace := trace \<lparr>nodes = [ENGLISH_FILE \<mapsto> File ''<string name="a">A</string>'',
        target_file_of ''values-fr'' \<mapsto> File []], trace = []\<rparr> @
        [Exists (target_file_of ''values-de'')]\<rparr> =
     \<lparr>nodes = [ENGLISH_FILE \<mapsto> File ''<string name="a">A</string>'',
        target_file_of ''values-fr'' \<mapsto> File []],
        trace = [Exists (target_file_of ''values-de'')]\<rparr>\<close>
    by simp
  from missing_target_is_skipped[OF p h, of "[''values-fr'']", unfolded e] show ?thesis .
qed


text \<open>
  C9, as amended. Let the English file, read in text mode, be the lines \<open>body @ [newline]\<close> for the
  \<open>bodies\<close>, followed by a \<open>tail\<close> without a newline (empty when the file ends with a
  newline). The file written by \<open>sync_file\<close> is the concatenation of one item per line,
  in the order of the lines; each item is computed from its line and from the table
  read from the target file, and nothing else of the target file goes into the result.
  When no value of the table holds a newline, every item is one line of the written
  file: it ends with the only newline it holds, and the item of the tail holds none.
  A value read from the target file can hold a newline, and then the written file has
  more lines than the English file, as the example after the theorem shows.
\<close>

theorem target_is_rebuilt_from_english_lines:
  assumes "prefix ''values-'' d"
    and "nodes w ENGLISH_FILE = Some (File c)"
    and "nodes w (target_file_of d) = Some (File t)"
    and "universal_newlines c = concat (map (\<lambda>body. body @ [newline]) bodies) @ tail"
    and "\<forall>body\<in>set bodies. newline \<notin> set body"
    and "newline \<notin> set tail"
  shows "\<exists>translations new_lines.
     fst (load_translations (target_file_of d) w) = Inr translations \<and>
     new_lines = map (sync_line translations)
                   (map (\<lambda>body. body @ [newline]) bodies @ (if tail = [] then [] else [tail])) \<and>
     fst (sync_file d w) = Inr () \<and>
     nodes (snd (sync_file d w)) = (nodes w)(target_file_of d \<mapsto> File (concat new_lines)) \<and>
     ((\<forall>k v. translations k = Some v \<longrightarrow> newline \<notin> set v) \<longrightarrow>
        (\<forall>i<length bodies. \<exists>new_body.
            new_lines ! i = new_body @ [newline] \<and> newline \<notin> set new_body) \<and>
        (tail \<noteq> [] \<longrightarrow> last new_lines \<noteq> [] \<and> newline \<notin> set (last new_lines)))"
proof -
  let ?tab = "translations_of (universal_newlines t)"
  let ?lines = "map (\<lambda>body. body @ [newline]) bodies @ (if tail = [] then [] else [tail])"
  have l: "readlines (universal_newlines c) = ?lines"
    unfolding assms(4) using assms(5,6) by (rule readlines_bodies)
  have 1: "fst (load_translations (target_file_of d) w) = Inr ?tab"
    using load_translations_file[OF assms(3)] by simp
  have 2: "fst (sync_file d w) = Inr ()"
    "nodes (snd (sync_file d w)) =
       (nodes w)(target_file_of d \<mapsto> File (concat (map (sync_line ?tab) ?lines)))"
    using sync_file_run[OF assms(1-3)] by (simp_all add: sync_lines_map l)
  have 3: "\<exists>new_body. map (sync_line ?tab) ?lines ! i = new_body @ [newline] \<and>
             newline \<notin> set new_body"
    if v: "\<forall>k v. ?tab k = Some v \<longrightarrow> newline \<notin> set v" and i: "i < length bodies" for i
  proof -
    let ?l = "bodies ! i @ [newline]"
    have b: "newline \<notin> set (bodies ! i)" using assms(5) i by simp
    have "map (sync_line ?tab) ?lines ! i = sync_line ?tab ?l"
      using i by (simp add: nth_append)
    moreover from written_line_end[of ?l ?tab] b v
    have "sync_line ?tab ?l \<noteq> []" "newline \<notin> set (butlast (sync_line ?tab ?l))"
      "last (sync_line ?tab ?l) = newline"
      by simp_all
    ultimately have "map (sync_line ?tab) ?lines ! i =
        butlast (sync_line ?tab ?l) @ [newline] \<and>
        newline \<notin> set (butlast (sync_line ?tab ?l))"
      by (metis append_butlast_last_id)
    then show ?thesis by blast
  qed
  have 4: "last (map (sync_line ?tab) ?lines) \<noteq> [] \<and>
           newline \<notin> set (last (map (sync_line ?tab) ?lines))"
    if v: "\<forall>k v. ?tab k = Some v \<longrightarrow> newline \<notin> set v" and n: "tail \<noteq> []"
  proof -
    have e: "last (map (sync_line ?tab) ?lines) = sync_line ?tab tail"
      using n by simp
    have "newline \<notin> set (butlast tail)" using assms(6) by (meson in_set_butlastD)
    from written_line_end[OF n this v]
    have a: "sync_line ?tab tail \<noteq> []" "newline \<notin> set (butlast (sync_line ?tab tail))"
      "last (sync_line ?tab tail) = last tail"
      by simp_all
    have "last tail \<noteq> newline" using assms(6) n last_in_set by metis
    with a have "newline \<notin> set (butlast (sync_line ?tab tail) @ [last (sync_line ?tab tail)])"
      by simp
    with a(1) have "newline \<notin> set (sync_line ?tab tail)" by simp
    with a(1) e show ?thesis by simp
  qed
  have 5: "(\<forall>k v. ?tab k = Some v \<longrightarrow> newline \<notin> set v) \<longrightarrow>
        (\<forall>i<length bodies. \<exists>new_body.
            map (sync_line ?tab) ?lines ! i = new_body @ [newline] \<and> newline \<notin> set new_body) \<and>
        (tail \<noteq> [] \<longrightarrow> last (map (sync_line ?tab) ?lines) \<noteq> [] \<and>
           newline \<notin> set (last (map (sync_line ?tab) ?lines)))"
    using 3 4 by blast
  show ?thesis
    by (rule exI[of _ ?tab], rule exI[of _ "map (sync_line ?tab) ?lines"])
       (rule conjI[OF 1 conjI[OF refl conjI[OF 2(1) conjI[OF 2(2) 5]]]])
qed

theorem target_is_rebuilt_from_english_lines_witness:
  \<open>nodes (snd (sync_file ''values-fr''
      \<lparr>nodes = [ENGLISH_FILE \<mapsto>
                  File (''<resources>'' @ [carriage_return, newline] @
                        ''  <string name="a">A</string>\<newline>  <string name="b">B</string>\<newline></resources>''),
                target_file_of ''values-fr'' \<mapsto>
                  File ''<!-- fr -->\<newline><string name="a">X</string>\<newline>''],
       trace = []\<rparr>)) (target_file_of ''values-fr'') =
     Some (File ''<resources>\<newline>  <string name="a">X</string>\<newline>  <string name="b">TODO: B</string>\<newline></resources>'')\<close>
proof -
  let ?c = \<open>''<resources>'' @ [carriage_return, newline] @
     ''  <string name="a">A</string>\<newline>  <string name="b">B</string>\<newline></resources>''\<close>
  let ?t = \<open>''<!-- fr -->\<newline><string name="a">X</string>\<newline>''\<close>
  let ?w = \<open>\<lparr>nodes = [ENGLISH_FILE \<mapsto> File ?c, target_file_of ''values-fr'' \<mapsto> File ?t],
       trace = []\<rparr>\<close>
  have p: "prefix ''values-'' ''values-fr''" by simp
  have c: \<open>nodes ?w ENGLISH_FILE = Some (File ?c)\<close>
    by (simp add: ENGLISH_FILE_def VALUES_DIR_def target_file_of_def)
  have t: \<open>nodes ?w (target_file_of ''values-fr'') = Some (File ?t)\<close>
    by simp
  have u: \<open>universal_newlines ?c =
     concat (map (\<lambda>body. body @ [newline])
       [''<resources>'', ''  <string name="a">A</string>'', ''  <string name="b">B</string>'']) @
     ''</resources>''\<close>
    by code_simp
  have hb: \<open>\<forall>body\<in>set [''<resources>'', ''  <string name="a">A</string>'',
                ''  <string name="b">B</string>'']. newline \<notin> set body\<close>
    by (simp add: newline_def)
  have ht: \<open>newline \<notin> set ''</resources>''\<close>
    by (simp add: newline_def)
  have ut: \<open>universal_newlines ?t = ?t\<close>
    by code_simp
  have f: \<open>finditer True load_pattern ?t =
           [[''<string name="'', ''a'', ''">'', ''X'', ''</string>'']]\<close>
    by code_simp
  have tr: \<open>translations_of ?t = [''a'' \<mapsto> ''X'']\<close>
    unfolding translations_of_def f by simp
  have s1: \<open>search False line_pattern (''<resources>'' @ [newline]) = None\<close>
    by code_simp
  have s2: \<open>search False line_pattern (''  <string name="a">A</string>'' @ [newline]) =
    Some (''  '', [[], ''<string name="'', [], ''a'', [], ''">'', [], ''A'', [],
               ''</string>'', []], [newline])\<close>
    by code_simp
  have s3: \<open>search False line_pattern (''  <string name="b">B</string>'' @ [newline]) =
    Some (''  '', [[], ''<string name="'', [], ''b'', [], ''">'', [], ''B'', [],
               ''</string>'', []], [newline])\<close>
    by code_simp
  have s4: \<open>search False line_pattern ''</resources>'' = None\<close>
    by code_simp
  have a1: \<open>sync_line [''a'' \<mapsto> ''X''] (''<resources>'' @ [newline]) = ''<resources>\<newline>''\<close>
    unfolding sync_line_def s1 by (simp add: newline_def)
  have a2: \<open>sync_line [''a'' \<mapsto> ''X''] (''  <string name="a">A</string>'' @ [newline]) =
            ''  <string name="a">X</string>\<newline>''\<close>
    unfolding sync_line_def s2 by (simp add: newline_def)
  have a3: \<open>sync_line [''a'' \<mapsto> ''X''] (''  <string name="b">B</string>'' @ [newline]) =
            ''  <string name="b">TODO: B</string>\<newline>''\<close>
    unfolding sync_line_def s3 by (simp add: newline_def)
  have a4: \<open>sync_line [''a'' \<mapsto> ''X''] ''</resources>'' = ''</resources>''\<close>
    unfolding sync_line_def s4 by simp
  from target_is_rebuilt_from_english_lines[OF p c t u hb ht]
  obtain tab new_lines where
    l: \<open>fst (load_translations (target_file_of ''values-fr'') ?w) = Inr tab\<close>
    and n: \<open>new_lines = map (sync_line tab)
       (map (\<lambda>body. body @ [newline])
          [''<resources>'', ''  <string name="a">A</string>'', ''  <string name="b">B</string>''] @
        (if ''</resources>'' = [] then [] else [''</resources>'']))\<close>
    and r: \<open>nodes (snd (sync_file ''values-fr'' ?w)) =
       (nodes ?w)(target_file_of ''values-fr'' \<mapsto> File (concat new_lines))\<close>
    by blast
  from l load_translations_file[OF t] have \<open>tab = [''a'' \<mapsto> ''X'']\<close>
    unfolding ut tr by simp
  with n have \<open>new_lines = [''<resources>\<newline>'', ''  <string name="a">X</string>\<newline>'',
      ''  <string name="b">TODO: B</string>\<newline>'', ''</resources>'']\<close>
    using a1 a2 a3 a4 by simp
  with r show ?thesis by simp
qed

theorem written_file_can_have_more_lines:
  \<open>readlines (universal_newlines
      ''<resources><string name="a">A</string>\<newline></resources>\<newline>'') =
     [''<resources><string name="a">A</string>\<newline>'', ''</resources>\<newline>''] \<and>
   nodes (snd (sync_file ''values-fr''
      \<lparr>nodes = [ENGLISH_FILE \<mapsto>
                  File ''<resources><string name="a">A</string>\<newline></resources>\<newline>'',
                target_file_of ''values-fr'' \<mapsto> File ''<string name="a">x\<newline>y</string>''],
       trace = []\<rparr>)) (target_file_of ''values-fr'') =
     Some (File ''<resources><string name="a">x\<newline>y</string>\<newline></resources>\<newline>'') \<and>
   readlines ''<resources><string name="a">x\<newline>y</string>\<newline></resources>\<newline>'' =
     [''<resources><string name="a">x\<newline>'', ''y</string>\<newline>'', ''</resources>\<newline>'']\<close>
proof -
  let ?c = \<open>''<resources><string name="a">A</string>\<newline></resources>\<newline>''\<close>
  let ?t = \<open>''<string name="a">x\<newline>y</string>''\<close>
  let ?w = \<open>\<lparr>nodes = [ENGLISH_FILE \<mapsto> File ?c, target_file_of ''values-fr'' \<mapsto> File ?t],
       trace = []\<rparr>\<close>
  have p: "prefix ''values-'' ''values-fr''" by simp
  have c: \<open>nodes ?w ENGLISH_FILE = Some (File ?c)\<close>
    by (simp add: ENGLISH_FILE_def VALUES_DIR_def target_file_of_def)
  have t: \<open>nodes ?w (target_file_of ''values-fr'') = Some (File ?t)\<close>
    by simp
  have l: \<open>readlines (universal_newlines ?c) =
     [''<resources><string name="a">A</string>\<newline>'', ''</resources>\<newline>'']\<close>
    by code_simp
  have ut: \<open>universal_newlines ?t = ?t\<close>
    by code_simp
  have f: \<open>finditer True load_pattern ?t =
           [[''<string name="'', ''a'', ''">'', ''x\<newline>y'', ''</string>'']]\<close>
    by code_simp
  have tr: \<open>translations_of ?t = [''a'' \<mapsto> ''x\<newline>y'']\<close>
    unfolding translations_of_def f by simp
  have s1: \<open>search False line_pattern ''<resources><string name="a">A</string>\<newline>'' =
    Some (''<resources>'', [[], ''<string name="'', [], ''a'', [], ''">'', [], ''A'', [],
               ''</string>'', []], ''\<newline>'')\<close>
    by code_simp
  have s2: \<open>search False line_pattern ''</resources>\<newline>'' = None\<close>
    by code_simp
  have a1: \<open>sync_line [''a'' \<mapsto> ''x\<newline>y''] ''<resources><string name="a">A</string>\<newline>'' =
            ''<resources><string name="a">x\<newline>y</string>\<newline>''\<close>
    unfolding sync_line_def s1 by simp
  have a2: \<open>sync_line [''a'' \<mapsto> ''x\<newline>y''] ''</resources>\<newline>'' = ''</resources>\<newline>''\<close>
    unfolding sync_line_def s2 by simp
  have w: \<open>nodes (snd (sync_file ''values-fr'' ?w)) (target_file_of ''values-fr'') =
     Some (File ''<resources><string name="a">x\<newline>y</string>\<newline></resources>\<newline>'')\<close>
    unfolding sync_file_run[OF p c t] ut tr l sync_lines_map list.map a1 a2 by simp
  have r: \<open>readlines ''<resources><string name="a">x\<newline>y</string>\<newline></resources>\<newline>'' =
     [''<resources><string name="a">x\<newline>'', ''y</string>\<newline>'', ''</resources>\<newline>'']\<close>
    by code_simp
  from l w r show ?thesis by blast
qed

text \<open>
  C10. When several entries of a file carry the same key, \<open>load_translations\<close> binds
  the key to the content of the last of them. For every text: a match of \<open>finditer\<close>
  after which no later match has the same key decides the value of its key. And these
  matches are the entries of the text: when the text is a sequence of entries
  \<open><string ws A name="K" B>V</string>\<close>, each after a gap, and a tail, where neither a
  gap nor the tail holds \<open><string\<close> followed by white space, the opening tags have no
  \<open>>\<close> inside and no second \<open>name="\<close> after the key, and no closing tag starts inside a
  content \<open>V\<close>, the table is exactly the last value of every key: an entry after which
  no entry of the sequence has the same key decides the value of its key.
\<close>

theorem last_entry_of_a_key_wins:
  \<open>(nodes w file_path = Some (File content) \<and>
    finditer True load_pattern (universal_newlines content) = earlier @ m # later \<and>
    match_group 1 m \<notin> match_group 1 ` set later \<longrightarrow>
      (\<exists>translations.
         fst (load_translations file_path w) = Inr translations \<and>
         translations (match_group 1 m) = Some (match_group 2 m))) \<and>
   (nodes w file_path = Some (File content) \<and>
    universal_newlines content =
      concat (map (\<lambda>(gap, ws, A, k, B, v).
         gap @ ''<string'' @ ws @ A @ ''name="'' @ k @ ''"'' @ B @ ''>'' @ v @ ''</string>'') es) @
      tail \<and>
    (\<forall>(gap, ws, A, k, B, v)\<in>set es.
      (\<forall>c. is_space c \<longrightarrow> \<not> sublist (''<string'' @ [c]) gap) \<and>
      ws \<noteq> [] \<and> (\<forall>c\<in>set ws. is_space c) \<and> CHR ''>'' \<notin> set A \<and>
      k \<noteq> [] \<and> CHR ''"'' \<notin> set k \<and> CHR ''>'' \<notin> set k \<and> CHR ''>'' \<notin> set B \<and>
      \<not> sublist ''name="'' (k @ ''"'' @ B) \<and> \<not> sublist ''</string>'' (v @ ''</string'')) \<and>
    (\<forall>c. is_space c \<longrightarrow> \<not> sublist (''<string'' @ [c]) tail) \<longrightarrow>
      (\<exists>translations.
         fst (load_translations file_path w) = Inr translations \<and>
         translations = map_of (rev (map (\<lambda>(gap, ws, A, k, B, v). (k, v)) es)) \<and>
         (\<forall>es1 gap ws A k B v es2.
            es = es1 @ (gap, ws, A, k, B, v) # es2 \<and>
            k \<notin> (\<lambda>(gap, ws, A, k, B, v). k) ` set es2 \<longrightarrow>
            translations k = Some v)))\<close>
proof (intro conjI impI)
  assume h: \<open>nodes w file_path = Some (File content) \<and>
    finditer True load_pattern (universal_newlines content) = earlier @ m # later \<and>
    match_group 1 m \<notin> match_group 1 ` set later\<close>
  then have "translations_of (universal_newlines content) (match_group 1 m) =
      Some (match_group 2 m)"
    unfolding translations_of_def by (simp add: fill_absent)
  with h load_translations_file[of w file_path content]
  show \<open>\<exists>translations.
         fst (load_translations file_path w) = Inr translations \<and>
         translations (match_group 1 m) = Some (match_group 2 m)\<close>
    by simp
next
  assume h: \<open>nodes w file_path = Some (File content) \<and>
    universal_newlines content =
      concat (map (\<lambda>(gap, ws, A, k, B, v).
         gap @ ''<string'' @ ws @ A @ ''name="'' @ k @ ''"'' @ B @ ''>'' @ v @ ''</string>'') es) @
      tail \<and>
    (\<forall>(gap, ws, A, k, B, v)\<in>set es.
      (\<forall>c. is_space c \<longrightarrow> \<not> sublist (''<string'' @ [c]) gap) \<and>
      ws \<noteq> [] \<and> (\<forall>c\<in>set ws. is_space c) \<and> CHR ''>'' \<notin> set A \<and>
      k \<noteq> [] \<and> CHR ''"'' \<notin> set k \<and> CHR ''>'' \<notin> set k \<and> CHR ''>'' \<notin> set B \<and>
      \<not> sublist ''name="'' (k @ ''"'' @ B) \<and> \<not> sublist ''</string>'' (v @ ''</string'')) \<and>
    (\<forall>c. is_space c \<longrightarrow> \<not> sublist (''<string'' @ [c]) tail)\<close>
  note n0 = h[THEN conjunct1]
  note u = h[THEN conjunct2, THEN conjunct1]
  note e = h[THEN conjunct2, THEN conjunct2, THEN conjunct1]
  note g = h[THEN conjunct2, THEN conjunct2, THEN conjunct2]
  have f: \<open>finditer True load_pattern (universal_newlines content) =
      map (\<lambda>(gap, ws, A, k, B, v).
         [''<string'' @ ws @ A @ ''name="'', k, ''"'' @ B @ ''>'', v, ''</string>'']) es\<close>
    unfolding u finditer_entries[OF e] no_opening_no_entry[OF g] by simp
  have t: "translations_of (universal_newlines content) =
      map_of (rev (map (\<lambda>(gap, ws, A, k, B, v). (k, v)) es))"
    unfolding translations_of_def f fill_entries by simp
  have "map_of (rev (map (\<lambda>(gap, ws, A, k, B, v). (k, v)) es)) k = Some v"
    if "es = es1 @ (gap, ws, A, k, B, v) # es2"
      and "k \<notin> (\<lambda>(gap, ws, A, k, B, v). k) ` set es2"
    for es1 gap ws A k B v es2
  proof -
    have "k \<notin> fst ` set (rev (map (\<lambda>(gap, ws, A, k, B, v). (k, v)) es2))"
      using that(2) by (auto simp: image_iff split: prod.splits)
    then have "map_of (rev (map (\<lambda>(gap, ws, A, k, B, v). (k, v)) es2)) k = None"
      by (simp add: map_of_eq_None_iff)
    then show ?thesis unfolding that(1) by (simp add: map_add_def)
  qed
  then have b: "\<forall>es1 gap ws A k B v es2.
            es = es1 @ (gap, ws, A, k, B, v) # es2 \<and>
            k \<notin> (\<lambda>(gap, ws, A, k, B, v). k) ` set es2 \<longrightarrow>
            map_of (rev (map (\<lambda>(gap, ws, A, k, B, v). (k, v)) es)) k = Some v"
    by blast
  have l: "fst (load_translations file_path w) =
           Inr (map_of (rev (map (\<lambda>(gap, ws, A, k, B, v). (k, v)) es)))"
    using load_translations_file[OF n0] unfolding t[symmetric] by simp
  show \<open>\<exists>translations.
         fst (load_translations file_path w) = Inr translations \<and>
         translations = map_of (rev (map (\<lambda>(gap, ws, A, k, B, v). (k, v)) es)) \<and>
         (\<forall>es1 gap ws A k B v es2.
            es = es1 @ (gap, ws, A, k, B, v) # es2 \<and>
            k \<notin> (\<lambda>(gap, ws, A, k, B, v). k) ` set es2 \<longrightarrow>
            translations k = Some v)\<close>
    by (rule exI[of _ "map_of (rev (map (\<lambda>(gap, ws, A, k, B, v). (k, v)) es))"])
       (rule conjI[OF l conjI[OF refl b]])
qed

theorem last_entry_of_a_key_wins_witness:
  \<open>\<exists>translations.
     fst (load_translations ''f''
        \<lparr>nodes = [''f'' \<mapsto> File (''<resources>'' @ [carriage_return, newline] @
          ''  <string name="a">one</string>\<newline>  <string-array name="x"></string-array>\<newline>  <string translatable="false" name="b" product="p">x</string>\<newline>  <string name="a">two</string>\<newline></resources>\<newline>'')],
         trace = []\<rparr>) = Inr translations \<and>
     translations ''a'' = Some ''two'' \<and> translations ''b'' = Some ''x''\<close>
proof -
  let ?c = \<open>''<resources>'' @ [carriage_return, newline] @
    ''  <string name="a">one</string>\<newline>  <string-array name="x"></string-array>\<newline>  <string translatable="false" name="b" product="p">x</string>\<newline>  <string name="a">two</string>\<newline></resources>\<newline>''\<close>
  let ?w = \<open>\<lparr>nodes = [''f'' \<mapsto> File ?c], trace = []\<rparr>\<close>
  let ?es = \<open>[(''<resources>\<newline>  '', '' '', '''', ''a'', '''', ''one''),
              (''\<newline>  <string-array name="x"></string-array>\<newline>  '', '' '',
               ''translatable="false" '', ''b'', '' product="p"'', ''x''),
              (''\<newline>  '', '' '', '''', ''a'', '''', ''two'')]\<close>
  have n: \<open>nodes ?w ''f'' = Some (File ?c)\<close>
    by simp
  have u: \<open>universal_newlines ?c =
     concat (map (\<lambda>(gap, ws, A, k, B, v).
         gap @ ''<string'' @ ws @ A @ ''name="'' @ k @ ''"'' @ B @ ''>'' @ v @ ''</string>'') ?es) @
     ''\<newline></resources>\<newline>''\<close>
    by code_simp
  have f: \<open>finditer True load_pattern (universal_newlines ?c) =
     [[''<string name="'', ''a'', ''">'', ''one'', ''</string>''],
      [''<string translatable="false" name="'', ''b'', ''" product="p">'', ''x'', ''</string>'']] @
     [''<string name="'', ''a'', ''">'', ''two'', ''</string>''] # []\<close>
    by code_simp
  have k: \<open>match_group 1 [''<string name="'', ''a'', ''">'', ''two'', ''</string>''] \<notin>
           match_group 1 ` set []\<close>
    by simp
  have he: \<open>\<forall>(gap, ws, A, k, B, v)\<in>set ?es.
      (\<forall>c. is_space c \<longrightarrow> \<not> sublist (''<string'' @ [c]) gap) \<and>
      ws \<noteq> [] \<and> (\<forall>c\<in>set ws. is_space c) \<and> CHR ''>'' \<notin> set A \<and>
      k \<noteq> [] \<and> CHR ''"'' \<notin> set k \<and> CHR ''>'' \<notin> set k \<and> CHR ''>'' \<notin> set B \<and>
      \<not> sublist ''name="'' (k @ ''"'' @ B) \<and> \<not> sublist ''</string>'' (v @ ''</string'')\<close>
    by code_simp
  have ht: \<open>\<forall>c. is_space c \<longrightarrow> \<not> sublist (''<string'' @ [c]) ''\<newline></resources>\<newline>''\<close>
    by code_simp
  note inst = last_entry_of_a_key_wins[of ?w \<open>''f''\<close> ?c
      \<open>[[''<string name="'', ''a'', ''">'', ''one'', ''</string>''],
        [''<string translatable="false" name="'', ''b'', ''" product="p">'', ''x'', ''</string>'']]\<close>
      \<open>[''<string name="'', ''a'', ''">'', ''two'', ''</string>'']\<close> \<open>[]\<close> ?es
      \<open>''\<newline></resources>\<newline>''\<close>]
  from inst[THEN conjunct1] n f k obtain tab1 where
    1: \<open>fst (load_translations ''f'' ?w) = Inr tab1\<close>
       \<open>tab1 (match_group 1 [''<string name="'', ''a'', ''">'', ''two'', ''</string>'']) =
        Some (match_group 2 [''<string name="'', ''a'', ''">'', ''two'', ''</string>''])\<close>
    by blast
  from inst[THEN conjunct2] n u he ht obtain tab2 where
    2: \<open>fst (load_translations ''f'' ?w) = Inr tab2\<close>
       \<open>tab2 = map_of (rev (map (\<lambda>(gap, ws, A, k, B, v). (k, v)) ?es))\<close>
    by blast
  from 1(1) 2(1) have e: "tab1 = tab2" by simp
  from 1(2) have \<open>tab1 ''a'' = Some ''two''\<close> by simp
  moreover from 2(2) e have \<open>tab1 ''b'' = Some ''x''\<close> by simp
  ultimately show ?thesis using 1(1) by blast
qed

end
